theory Spec2Isabelle
  imports Main "HOL-Library.Word"
begin

section \<open>The tile map example: data and collaborators\<close>

text \<open>
  The program of \<^verbatim>\<open>src/tilemap/src/main.c\<close> only sequences calls to the file
  library and to the display coprocessor (VDP).  The embedding keeps every such call as
  an event of a trace, in program order, with the arguments the code passes.
\<close>

type_synonym u8 = "8 word"
type_synonym u16 = "16 word"
type_synonym byte = "8 word"

datatype event =
    Fopen string string
  | Fread nat nat nat
  | Fclose
  | Printf string
  | Vdp_mode u8
  | Vdp_cursor_enable bool
  | Vdp_set_text_bg_colour int
  | Vdp_clear_screen
  | Vdp_set_pixel_coordinates
  | Vdp_cursor_tab int int
  | Vdp_getKeyCode u8
  | Vdp_adv_clear_buffer u16
  | Vdp_adv_write_block_data u16 u16 "byte list"
  | Vdp_adv_split_by_width_multiple_from u16 u16 u16 u16
  | Vdp_adv_select_bitmap u16
  | Vdp_adv_bitmap_from_buffer u16 u16 u8
  | Vdp_plot_bitmap int int

text \<open>
  \<open>Fread size count got\<close> records the request and the number of bytes the stream
  delivered; \<open>Vdp_getKeyCode k\<close> records the value a poll returned;
  \<open>Vdp_adv_write_block_data id len data\<close> carries the \<open>len\<close> bytes sent.

  The machine state: the trace, the global array \<^verbatim>\<open>readChunk\<close>, and the read
  position of the stream \<^verbatim>\<open>tileMapFile\<close>.
\<close>

record state =
  trace :: "event list"
  readChunk :: "byte list"
  fpos :: nat

definition emit :: "event \<Rightarrow> state \<Rightarrow> state" where
  "emit e st = st\<lparr>trace := trace st @ [e]\<rparr>"

subsection \<open>The constants of the program\<close>

definition screen_mode :: u8 where "screen_mode = 8"
definition RGBA2222_format :: u8 where "RGBA2222_format = 1"
definition chunkSize :: u16 where "chunkSize = 2048"
definition chunkStoreID :: u16 where "chunkStoreID = 5000"
definition tileStartID :: u16 where "tileStartID = 0"
definition cellWidth :: u16 where "cellWidth = 16"
definition cellHeight :: u16 where "cellHeight = 16"
definition cellRows :: u16 where "cellRows = 5"
definition cellColumns :: u16 where "cellColumns = 8"
definition fname :: string where "fname = ''basictiles_merged.RGB2''"

text \<open>\<^verbatim>\<open>char readChunk[2048]\<close>, zero-initialised as every C global is.\<close>

definition readChunk_init :: "byte list" where
  "readChunk_init = replicate 2048 0"

definition state_init :: state where
  "state_init = \<lparr>trace = [], readChunk = readChunk_init, fpos = 0\<rparr>"

subsection \<open>The file library\<close>

text \<open>
  A file system maps a name to the bytes of the file, or to nothing when there is no such
  file; \<^verbatim>\<open>fopen\<close> then yields no stream (NULL).  \<^verbatim>\<open>fread(buf, 1, n, f)\<close> delivers
  the next \<open>n\<close> bytes, or fewer at the end of the file, stores them from index 0 of the
  array and leaves the rest of the array as it was.  Bytes stored past the end of the
  array would make the list longer than the array: the model does not hide an overrun.

  The loader does not test the stream it gets (line 108).  With no such file it calls
  \<^verbatim>\<open>fread\<close> and \<^verbatim>\<open>fclose\<close> on the NULL stream, which C leaves undefined.  The
  functions below go on there as if the read delivered nothing; \<open>loader_outcome\<close>, after
  the loader, says which runs C defines.
\<close>

type_synonym filesystem = "string \<Rightarrow> byte list option"

definition fread_bytes :: "byte list option \<Rightarrow> nat \<Rightarrow> nat \<Rightarrow> byte list" where
  "fread_bytes file pos n =
     (case file of None \<Rightarrow> [] | Some bytes \<Rightarrow> take n (drop pos bytes))"

definition fread_readChunk :: "byte list option \<Rightarrow> nat \<Rightarrow> state \<Rightarrow> state" where
  "fread_readChunk file n st =
     (let got = fread_bytes file (fpos st) n
      in emit (Fread 1 n (length got))
           (st\<lparr>readChunk := got @ drop (length got) (readChunk st),
               fpos := fpos st + length got\<rparr>))"

section \<open>The Tile Loader\<close>

text \<open>
  Lines 119 to 123: the conversion loop.  Its counter \<^verbatim>\<open>rowLoop\<close> is a
  \<^verbatim>\<open>uint8_t\<close> compared with the \<^verbatim>\<open>uint16_t blockCount\<close>; the comparison is on the
  values (both are promoted), the increment wraps at 256.  \<^verbatim>\<open>startBitmapID\<close> is a
  \<^verbatim>\<open>uint16_t\<close> and wraps at 65536.  A loop that never ends has the value \<open>None\<close>.
\<close>

definition convert_body :: "u16 \<Rightarrow> u16 \<Rightarrow> u16 \<Rightarrow> state \<Rightarrow> state" where
  "convert_body cw ch startBitmapID st =
     emit (Vdp_adv_bitmap_from_buffer cw ch RGBA2222_format)
       (emit (Vdp_adv_select_bitmap startBitmapID) st)"

partial_function (option) convert_loop ::
  "u8 \<Rightarrow> u16 \<Rightarrow> u16 \<Rightarrow> u16 \<Rightarrow> u16 \<Rightarrow> state \<Rightarrow> (u16 \<times> state) option" where
  "convert_loop rowLoop blockCount cw ch startBitmapID st =
     (if unat rowLoop < unat blockCount
      then convert_loop (rowLoop + 1) blockCount cw ch (startBitmapID + 1)
             (convert_body cw ch startBitmapID st)
      else Some (startBitmapID, st))"

text \<open>Lines 111 to 116: the part of an outer iteration before the conversion loop.\<close>

definition chunk_head :: "byte list option \<Rightarrow> u16 \<Rightarrow> u16 \<Rightarrow> u16 \<Rightarrow> state \<Rightarrow> state" where
  "chunk_head file cw blockCount startBitmapID st =
     (let st1 = emit (Vdp_adv_clear_buffer chunkStoreID) st;
          st2 = fread_readChunk file (unat chunkSize) st1;
          st3 = emit (Vdp_adv_write_block_data chunkStoreID chunkSize
                        (take (unat chunkSize) (readChunk st2))) st2
      in emit (Vdp_adv_split_by_width_multiple_from chunkStoreID cw blockCount startBitmapID)
           st3)"

text \<open>Lines 110 to 124: the chunk loop, counter \<^verbatim>\<open>uint8_t chunkLoop\<close>.\<close>

partial_function (option) chunk_loop ::
  "byte list option \<Rightarrow> u8 \<Rightarrow> u16 \<Rightarrow> u16 \<Rightarrow> u16 \<Rightarrow> u16 \<Rightarrow> u16 \<Rightarrow> state
     \<Rightarrow> (u16 \<times> state) option" where
  "chunk_loop file chunkLoop rowCount blockCount cw ch startBitmapID st =
     (if unat chunkLoop < unat rowCount
      then Option.bind
             (convert_loop 0 blockCount cw ch startBitmapID
                (chunk_head file cw blockCount startBitmapID st))
             (\<lambda>r. chunk_loop file (chunkLoop + 1) rowCount blockCount cw ch (fst r) (snd r))
      else Some (startBitmapID, st))"

text \<open>Lines 106 to 126.\<close>

definition load_tiles_from_file ::
  "filesystem \<Rightarrow> string \<Rightarrow> u16 \<Rightarrow> u16 \<Rightarrow> u16 \<Rightarrow> u16 \<Rightarrow> u16 \<Rightarrow> state \<Rightarrow> state option" where
  "load_tiles_from_file fs fileName startBitmapID cw ch rowCount blockCount st =
     Option.bind
       (chunk_loop (fs fileName) 0 rowCount blockCount cw ch startBitmapID
          (emit (Fopen fileName ''r'') (st\<lparr>fpos := 0\<rparr>)))
       (\<lambda>r. Some (emit Fclose (snd r)))"

text \<open>
  What a call of the loader comes to.  With a file that opens, it returns or it never
  does.  With no such file the call of \<^verbatim>\<open>fread\<close> (line 112) or, when there are no
  rows, of \<^verbatim>\<open>fclose\<close> (line 125) is on the NULL stream: undefined.
\<close>

datatype outcome = Returns state | Never_returns | Undefined

definition loader_outcome ::
  "filesystem \<Rightarrow> string \<Rightarrow> u16 \<Rightarrow> u16 \<Rightarrow> u16 \<Rightarrow> u16 \<Rightarrow> u16 \<Rightarrow> state \<Rightarrow> outcome" where
  "loader_outcome fs fileName startBitmapID cw ch rowCount blockCount st =
     (case fs fileName of
        None \<Rightarrow> Undefined
      | Some bytes \<Rightarrow>
          (case load_tiles_from_file fs fileName startBitmapID cw ch rowCount blockCount st of
             None \<Rightarrow> Never_returns
           | Some st' \<Rightarrow> Returns st'))"

section \<open>The Grid Renderer\<close>

text \<open>
  Lines 131 to 140.  Counters and bounds are all \<^verbatim>\<open>uint8_t\<close> here, so both loops
  end and the renderer is a total function.  The coordinates are computed in
  \<^verbatim>\<open>int\<close>, where \<open>10 + 255 * 20\<close> does not overflow.
\<close>

definition plot_body :: "u8 \<Rightarrow> u8 \<Rightarrow> u16 \<Rightarrow> state \<Rightarrow> state" where
  "plot_body rLoop cLoop startBufferID st =
     emit (Vdp_plot_bitmap (10 + uint cLoop * 20) (10 + uint rLoop * 20))
       (emit (Vdp_adv_select_bitmap startBufferID) st)"

function column_loop :: "u8 \<Rightarrow> u8 \<Rightarrow> u8 \<Rightarrow> u16 \<Rightarrow> state \<Rightarrow> u16 \<times> state" where
  "column_loop rLoop cLoop columns startBufferID st =
     (if cLoop < columns
      then column_loop rLoop (cLoop + 1) columns (startBufferID + 1)
             (plot_body rLoop cLoop startBufferID st)
      else (startBufferID, st))"
  by pat_completeness auto
termination
proof (relation "measure (\<lambda>(rLoop, cLoop, columns, startBufferID, st). unat columns - unat cLoop)")
  fix rLoop cLoop columns :: u8 and startBufferID :: u16 and st :: state
  assume "cLoop < columns"
  then have lt: "unat cLoop < unat columns"
    by (simp add: word_less_nat_alt)
  have "unat columns < 2 ^ LENGTH(8)"
    by (rule unsigned_less)
  with lt have "unat (cLoop + 1) = Suc (unat cLoop)"
    by (simp add: unat_word_ariths)
  with lt show "((rLoop, cLoop + 1, columns, startBufferID + 1,
                  plot_body rLoop cLoop startBufferID st),
                 (rLoop, cLoop, columns, startBufferID, st))
                \<in> measure (\<lambda>(rLoop, cLoop, columns, startBufferID, st).
                              unat columns - unat cLoop)"
    by simp
qed simp

function row_loop :: "u8 \<Rightarrow> u8 \<Rightarrow> u8 \<Rightarrow> u16 \<Rightarrow> state \<Rightarrow> u16 \<times> state" where
  "row_loop rLoop rows columns startBufferID st =
     (if rLoop < rows
      then (case column_loop rLoop 0 columns startBufferID st of
              (startBufferID', st') \<Rightarrow> row_loop (rLoop + 1) rows columns startBufferID' st')
      else (startBufferID, st))"
  by pat_completeness auto
termination
proof (relation "measure (\<lambda>(rLoop, rows, columns, startBufferID, st). unat rows - unat rLoop)")
  fix rLoop rows columns :: u8 and startBufferID startBufferID' :: u16 and st st' :: state
  assume "rLoop < rows"
  then have lt: "unat rLoop < unat rows"
    by (simp add: word_less_nat_alt)
  have "unat rows < 2 ^ LENGTH(8)"
    by (rule unsigned_less)
  with lt have "unat (rLoop + 1) = Suc (unat rLoop)"
    by (simp add: unat_word_ariths)
  with lt show "((rLoop + 1, rows, columns, startBufferID', st'),
                 (rLoop, rows, columns, startBufferID, st))
                \<in> measure (\<lambda>(rLoop, rows, columns, startBufferID, st).
                              unat rows - unat rLoop)"
    by simp
qed simp

definition display_tiles :: "u8 \<Rightarrow> u8 \<Rightarrow> u16 \<Rightarrow> state \<Rightarrow> state" where
  "display_tiles rows columns startBufferID st =
     snd (row_loop 0 rows columns startBufferID st)"

section \<open>The main program\<close>

text \<open>
  Lines 91 to 93: the wait loop.  \<open>keys n\<close> is the key code that poll number \<open>n\<close> of
  the run returns.
\<close>

partial_function (option) wait_loop :: "(nat \<Rightarrow> u8) \<Rightarrow> nat \<Rightarrow> state \<Rightarrow> state option" where
  "wait_loop keys n st =
     (if keys n = 27 then Some (emit (Vdp_getKeyCode (keys n)) st)
      else wait_loop keys (Suc n) (emit (Vdp_getKeyCode (keys n)) st))"

text \<open>
  Lines 72 to 82.  The colour \<^verbatim>\<open>BLUE\<close> comes from the VDP header, which is not part
  of the repository: it is a parameter.
\<close>

definition main_setup :: "int \<Rightarrow> state \<Rightarrow> state" where
  "main_setup BLUE st =
     emit (Printf ''Press ESC to exit'')
    (emit (Vdp_cursor_tab 0 29)
    (emit (Printf ''AgonDev Tile Map example'')
    (emit (Vdp_cursor_tab 0 27)
    (emit Vdp_set_pixel_coordinates
    (emit Vdp_clear_screen
    (emit (Vdp_set_text_bg_colour BLUE)
    (emit (Vdp_cursor_enable False)
    (emit (Vdp_mode screen_mode) st))))))))"

text \<open>Lines 95 to 98.\<close>

definition main_exit :: "state \<Rightarrow> int \<times> state" where
  "main_exit st =
     (0, emit (Vdp_cursor_enable True)
        (emit Vdp_clear_screen
        (emit (Vdp_set_text_bg_colour 0) st)))"

text \<open>Lines 72 to 88: the program up to the wait loop.\<close>

definition main_draw :: "int \<Rightarrow> filesystem \<Rightarrow> state option" where
  "main_draw BLUE fs =
     map_option (display_tiles 5 8 tileStartID)
       (load_tiles_from_file fs fname tileStartID cellWidth cellHeight cellRows cellColumns
          (main_setup BLUE state_init))"

definition main :: "int \<Rightarrow> filesystem \<Rightarrow> (nat \<Rightarrow> u8) \<Rightarrow> (int \<times> state) option" where
  "main BLUE fs keys =
     Option.bind (main_draw BLUE fs)
       (\<lambda>st. map_option main_exit (wait_loop keys 0 st))"

section \<open>Loops as iterated bodies\<close>

text \<open>
  \<open>convert_n n\<close> and \<open>chunk_n n\<close> run the body of the conversion loop and of the
  chunk loop \<open>n\<close> times.  The loops of the loader equal them when their 8-bit counters
  can reach the bound.
\<close>

fun convert_n :: "nat \<Rightarrow> u16 \<Rightarrow> u16 \<Rightarrow> u16 \<Rightarrow> state \<Rightarrow> u16 \<times> state" where
  "convert_n 0 cw ch startBitmapID st = (startBitmapID, st)"
| "convert_n (Suc n) cw ch startBitmapID st =
     convert_n n cw ch (startBitmapID + 1) (convert_body cw ch startBitmapID st)"

fun chunk_n :: "byte list option \<Rightarrow> nat \<Rightarrow> u16 \<Rightarrow> u16 \<Rightarrow> u16 \<Rightarrow> u16 \<Rightarrow> state \<Rightarrow> u16 \<times> state" where
  "chunk_n file 0 blockCount cw ch startBitmapID st = (startBitmapID, st)"
| "chunk_n file (Suc n) blockCount cw ch startBitmapID st =
     (case convert_n (unat blockCount) cw ch startBitmapID
             (chunk_head file cw blockCount startBitmapID st) of
        (startBitmapID', st') \<Rightarrow> chunk_n file n blockCount cw ch startBitmapID' st')"

text \<open>The loader returns exactly for these counts (see the lemmas on \<open>chunk_loop\<close>).\<close>

definition loader_terminates :: "u16 \<Rightarrow> u16 \<Rightarrow> bool" where
  "loader_terminates rowCount blockCount =
     (unat rowCount \<le> 255 \<and> (unat rowCount = 0 \<or> unat blockCount \<le> 255))"

section \<open>The calls of a run, written out\<close>

text \<open>
  The conversions of one row: for \<open>j < n\<close>, select bitmap \<open>i + j\<close> and convert it.
\<close>

definition convert_events :: "u16 \<Rightarrow> u16 \<Rightarrow> u16 \<Rightarrow> nat \<Rightarrow> event list" where
  "convert_events cw ch i n =
     concat (map (\<lambda>j. [Vdp_adv_select_bitmap (i + of_nat j),
                         Vdp_adv_bitmap_from_buffer cw ch RGBA2222_format]) [0..<n])"

text \<open>
  \<open>chunk_state f (buf, pos) r\<close> is the array \<^verbatim>\<open>readChunk\<close> and the stream position
  after \<open>r\<close> reads of \<open>chunkSize\<close> bytes.
\<close>

definition fread_step :: "byte list option \<Rightarrow> nat \<Rightarrow> byte list \<times> nat \<Rightarrow> byte list \<times> nat" where
  "fread_step f n bp =
     (let got = fread_bytes f (snd bp) n
      in (got @ drop (length got) (fst bp), snd bp + length got))"

definition chunk_state :: "byte list option \<Rightarrow> byte list \<times> nat \<Rightarrow> nat \<Rightarrow> byte list \<times> nat" where
  "chunk_state f bp r = (fread_step f (unat chunkSize) ^^ r) bp"

text \<open>
  The calls of row \<open>r\<close>: clear the chunk buffer, read, send the array to the chunk
  buffer, split it into \<open>blockCount\<close> buffers from ID \<open>i + r * blockCount\<close>, convert
  these.
\<close>

definition row_events ::
  "byte list option \<Rightarrow> u16 \<Rightarrow> u16 \<Rightarrow> u16 \<Rightarrow> u16 \<Rightarrow> byte list \<times> nat \<Rightarrow> nat \<Rightarrow> event list" where
  "row_events f cw ch blockCount i bp r =
     [Vdp_adv_clear_buffer chunkStoreID,
      Fread 1 (unat chunkSize) (snd (chunk_state f bp (Suc r)) - snd (chunk_state f bp r)),
      Vdp_adv_write_block_data chunkStoreID chunkSize
        (take (unat chunkSize) (fst (chunk_state f bp (Suc r)))),
      Vdp_adv_split_by_width_multiple_from chunkStoreID cw blockCount
        (i + of_nat (r * unat blockCount))]
     @ convert_events cw ch (i + of_nat (r * unat blockCount)) (unat blockCount)"

definition loader_events ::
  "byte list option \<Rightarrow> u16 \<Rightarrow> u16 \<Rightarrow> nat \<Rightarrow> u16 \<Rightarrow> u16 \<Rightarrow> byte list \<times> nat \<Rightarrow> event list" where
  "loader_events f cw ch n blockCount i bp =
     concat (map (row_events f cw ch blockCount i bp) [0..<n])"

text \<open>
  The calls of the loader without what came out of the file: a read that delivered 0
  bytes stands for every read, an empty block for every block sent.
\<close>

definition loader_shape :: "string \<Rightarrow> u16 \<Rightarrow> u16 \<Rightarrow> u16 \<Rightarrow> nat \<Rightarrow> u16 \<Rightarrow> event list" where
  "loader_shape fileName i cw ch n blockCount =
     [Fopen fileName ''r'']
     @ concat (map (\<lambda>r.
         [Vdp_adv_clear_buffer chunkStoreID,
          Fread 1 (unat chunkSize) 0,
          Vdp_adv_write_block_data chunkStoreID chunkSize [],
          Vdp_adv_split_by_width_multiple_from chunkStoreID cw blockCount
            (i + of_nat (r * unat blockCount))]
         @ convert_events cw ch (i + of_nat (r * unat blockCount)) (unat blockCount))
       [0..<n])
     @ [Fclose]"

text \<open>
  The calls of the renderer for a \<open>rows \<times> columns\<close> grid, row by row: cell \<open>(r, c)\<close> selects
  bitmap \<open>i + (r * columns + c)\<close> and plots it at \<open>(10 + 20 * c, 10 + 20 * r)\<close>.
\<close>

definition display_events :: "nat \<Rightarrow> nat \<Rightarrow> u16 \<Rightarrow> event list" where
  "display_events rows columns i =
     concat (map (\<lambda>r. concat (map (\<lambda>c.
        [Vdp_adv_select_bitmap (i + of_nat (r * columns + c)),
         Vdp_plot_bitmap (10 + 20 * int c) (10 + 20 * int r)]) [0..<columns])) [0..<rows])"

definition plot_row_events :: "nat \<Rightarrow> nat \<Rightarrow> nat \<Rightarrow> u16 \<Rightarrow> event list" where
  "plot_row_events r c0 n i =
     concat (map (\<lambda>c. [Vdp_adv_select_bitmap (i + of_nat c),
                         Vdp_plot_bitmap (10 + 20 * int (c0 + c)) (10 + 20 * int r)]) [0..<n])"

fun is_plot :: "event \<Rightarrow> bool" where
  "is_plot (Vdp_plot_bitmap x y) = True"
| "is_plot e = False"

text \<open>
  The calls of \<^verbatim>\<open>main\<close>: before the loader, those of the program up to the wait loop,
  the polls, and those of the exit.
\<close>

definition setup_events :: "int \<Rightarrow> event list" where
  "setup_events BLUE =
     [Vdp_mode screen_mode, Vdp_cursor_enable False, Vdp_set_text_bg_colour BLUE,
      Vdp_clear_screen, Vdp_set_pixel_coordinates,
      Vdp_cursor_tab 0 27, Printf ''AgonDev Tile Map example'',
      Vdp_cursor_tab 0 29, Printf ''Press ESC to exit'']"

definition load_events :: "int \<Rightarrow> filesystem \<Rightarrow> event list" where
  "load_events BLUE fs =
     setup_events BLUE @ [Fopen fname ''r'']
     @ loader_events (fs fname) cellWidth cellHeight (unat cellRows) cellColumns tileStartID
         (readChunk_init, 0)
     @ [Fclose]"

definition draw_events :: "int \<Rightarrow> filesystem \<Rightarrow> event list" where
  "draw_events BLUE fs =
     setup_events BLUE @ [Fopen fname ''r'']
     @ loader_events (fs fname) cellWidth cellHeight (unat cellRows) cellColumns tileStartID
         (readChunk_init, 0)
     @ [Fclose] @ display_events 5 8 tileStartID"

definition poll_events :: "(nat \<Rightarrow> u8) \<Rightarrow> nat \<Rightarrow> nat \<Rightarrow> event list" where
  "poll_events keys n k = map (\<lambda>j. Vdp_getKeyCode (keys (n + j))) [0..<k]"

definition exit_events :: "event list" where
  "exit_events = [Vdp_set_text_bg_colour 0, Vdp_clear_screen, Vdp_cursor_enable True]"

section \<open>Observations on a trace\<close>

text \<open>
  The VDP keeps one selected bitmap: a conversion and a plot act on the bitmap selected
  last.  \<open>converted sel t\<close> lists the IDs converted to bitmaps along \<open>t\<close>, and
  \<open>plotted sel t\<close> the bitmaps plotted with their positions, when \<open>sel\<close> was selected
  before \<open>t\<close>.
\<close>

fun is_convert :: "event \<Rightarrow> bool" where
  "is_convert (Vdp_adv_bitmap_from_buffer w h f) = True"
| "is_convert e = False"

fun selected_after :: "u16 \<Rightarrow> event list \<Rightarrow> u16" where
  "selected_after sel [] = sel"
| "selected_after sel (Vdp_adv_select_bitmap i # es) = selected_after i es"
| "selected_after sel (e # es) = selected_after sel es"

fun converted :: "u16 \<Rightarrow> event list \<Rightarrow> u16 list" where
  "converted sel [] = []"
| "converted sel (Vdp_adv_select_bitmap i # es) = converted i es"
| "converted sel (Vdp_adv_bitmap_from_buffer w h f # es) = sel # converted sel es"
| "converted sel (e # es) = converted sel es"

fun plotted :: "u16 \<Rightarrow> event list \<Rightarrow> (u16 \<times> int \<times> int) list" where
  "plotted sel [] = []"
| "plotted sel (Vdp_adv_select_bitmap i # es) = plotted i es"
| "plotted sel (Vdp_plot_bitmap x y # es) = (sel, x, y) # plotted sel es"
| "plotted sel (e # es) = plotted sel es"

text \<open>The trace up to the first plot command, and from it on.\<close>

definition before_first_plot :: "event list \<Rightarrow> event list" where
  "before_first_plot t = takeWhile (\<lambda>e. \<not> is_plot e) t"

definition from_first_plot :: "event list \<Rightarrow> event list" where
  "from_first_plot t = dropWhile (\<lambda>e. \<not> is_plot e) t"

text \<open>
  A read is inside an array of \<open>cap\<close> bytes when it asks for at most \<open>cap\<close> bytes and
  the stream delivers no more than it was asked for.
\<close>

fun reads_within :: "nat \<Rightarrow> event \<Rightarrow> bool" where
  "reads_within cap (Fread sz cnt got) = (sz * cnt \<le> cap \<and> got \<le> sz * cnt)"
| "reads_within cap e = True"

text \<open>
  The shape of a call: the call without what came out of the file (the number of bytes a
  read delivered, the bytes sent to the VDP).
\<close>

fun shape :: "event \<Rightarrow> event" where
  "shape (Fread sz cnt got) = Fread sz cnt 0"
| "shape (Vdp_adv_write_block_data b len bytes) = Vdp_adv_write_block_data b len []"
| "shape e = e"

text \<open>
  The buffer IDs a call assigns to tiles (the targets of a split, a selected bitmap), and
  the ID it uses for the chunk (cleared, written, the source of a split).
\<close>

fun tile_ids :: "event \<Rightarrow> u16 list" where
  "tile_ids (Vdp_adv_split_by_width_multiple_from src w n tgt) =
     map (\<lambda>j. tgt + of_nat j) [0..<unat n]"
| "tile_ids (Vdp_adv_select_bitmap i) = [i]"
| "tile_ids e = []"

fun chunk_ids :: "event \<Rightarrow> u16 list" where
  "chunk_ids (Vdp_adv_clear_buffer b) = [b]"
| "chunk_ids (Vdp_adv_write_block_data b len bytes) = [b]"
| "chunk_ids (Vdp_adv_split_by_width_multiple_from src w n tgt) = [src]"
| "chunk_ids e = []"

section \<open>The display coprocessor\<close>

text \<open>
  Modelled from the spec: the buffer and bitmap commands of the VDP, which the program
  calls and the repository does not contain.  The spec describes the chunk buffer as
  cleared and overwritten for each row, the split as a partition of that buffer into
  \<open>blockCount\<close> sub-buffers of equal width with consecutive IDs, and the conversion as
  making the selected sub-buffer, in place, a drawable bitmap of the given width and
  height, one byte per pixel.

  A buffer holds bytes; a bitmap is a width and a height on the buffer of the same ID,
  whose bytes are its pixels.  Clearing a buffer removes it and its bitmap.
\<close>

record vdp =
  buffers :: "u16 \<Rightarrow> byte list option"
  bitmaps :: "u16 \<Rightarrow> (nat \<times> nat) option"
  selected :: u16

definition vdp_empty :: vdp where
  "vdp_empty = \<lparr>buffers = (\<lambda>i. None), bitmaps = (\<lambda>i. None), selected = 0\<rparr>"

text \<open>
  Modelled from the spec: splitting by width.  The bytes are cut into pieces of \<open>w\<close>
  bytes, and piece number \<open>p\<close> goes to sub-buffer \<open>p mod n\<close>: sub-buffer \<open>c\<close> is the
  column \<open>c\<close> of an image whose lines are \<open>n * w\<close> bytes long.
\<close>

definition split_column :: "nat \<Rightarrow> nat \<Rightarrow> byte list \<Rightarrow> nat \<Rightarrow> byte list" where
  "split_column w n bytes c =
     concat (map (\<lambda>j. take w (drop ((j * n + c) * w) bytes))
               [0..<length bytes div (w * n) + 1])"

fun vdp_exec :: "event \<Rightarrow> vdp \<Rightarrow> vdp" where
  "vdp_exec (Vdp_adv_clear_buffer b) v =
     v\<lparr>buffers := (buffers v)(b := None), bitmaps := (bitmaps v)(b := None)\<rparr>"
| "vdp_exec (Vdp_adv_write_block_data b len bytes) v =
     v\<lparr>buffers := (buffers v)(b \<mapsto>
         (case buffers v b of None \<Rightarrow> [] | Some old \<Rightarrow> old) @ bytes)\<rparr>"
| "vdp_exec (Vdp_adv_split_by_width_multiple_from src w n tgt) v =
     (case buffers v src of
        None \<Rightarrow> v
      | Some bytes \<Rightarrow>
          v\<lparr>buffers := (\<lambda>i. if unat (i - tgt) < unat n
                             then Some (split_column (unat w) (unat n) bytes (unat (i - tgt)))
                             else buffers v i),
            bitmaps := (\<lambda>i. if unat (i - tgt) < unat n then None else bitmaps v i)\<rparr>)"
| "vdp_exec (Vdp_adv_select_bitmap i) v = v\<lparr>selected := i\<rparr>"
| "vdp_exec (Vdp_adv_bitmap_from_buffer w h f) v =
     (case buffers v (selected v) of
        None \<Rightarrow> v
      | Some bytes \<Rightarrow>
          if f = RGBA2222_format \<and> unat w * unat h \<le> length bytes
          then v\<lparr>bitmaps := (bitmaps v)(selected v \<mapsto> (unat w, unat h))\<rparr>
          else v)"
| "vdp_exec e v = v"

definition vdp_run :: "event list \<Rightarrow> vdp \<Rightarrow> vdp" where
  "vdp_run t v = fold vdp_exec t v"

text \<open>
  Modelled from the spec: a coprocessor that rejects commands.  No call of the VDP gives
  the program a result (the code uses none), so a rejected command is one the VDP leaves
  without effect: \<open>rej n\<close> says that it rejects call number \<open>n\<close>.
  \<open>loader_on_vdp\<close> is the loader together with such a coprocessor, which gets the
  calls of the loader one after the other.
\<close>

definition vdp_run_rejecting :: "(nat \<Rightarrow> bool) \<Rightarrow> event list \<Rightarrow> vdp \<Rightarrow> vdp" where
  "vdp_run_rejecting rej t v =
     fold (\<lambda>ne v. if rej (fst ne) then v else vdp_exec (snd ne) v) (enumerate 0 t) v"

definition loader_on_vdp ::
  "(nat \<Rightarrow> bool) \<Rightarrow> vdp \<Rightarrow> filesystem \<Rightarrow> string \<Rightarrow> u16 \<Rightarrow> u16 \<Rightarrow> u16 \<Rightarrow> u16 \<Rightarrow> u16 \<Rightarrow> state
     \<Rightarrow> (state \<times> vdp) option" where
  "loader_on_vdp rej v fs fileName startBitmapID cw ch rowCount blockCount st =
     map_option
       (\<lambda>st'. (st', vdp_run_rejecting rej (drop (length (trace st)) (trace st')) v))
       (load_tiles_from_file fs fileName startBitmapID cw ch rowCount blockCount st)"

text \<open>The pixels of bitmap \<open>i\<close>, when there is one.\<close>

definition bitmap_pixels :: "vdp \<Rightarrow> u16 \<Rightarrow> byte list option" where
  "bitmap_pixels v i =
     (case bitmaps v i of
        None \<Rightarrow> None
      | Some (w, h) \<Rightarrow> map_option (take (w * h)) (buffers v i))"

text \<open>
  The source cell at row \<open>r\<close> and column \<open>c\<close>, in the spec's words: the file is an
  image of \<open>columns\<close> cells per row, each \<open>cw\<close> pixels wide and \<open>ch\<close> high, one byte
  per pixel, stored line by line.  Line \<open>y\<close> of the cell is the \<open>cw\<close> bytes at
  \<open>(r * ch + y) * (columns * cw) + c * cw\<close>.
\<close>

definition cell_pixels :: "byte list \<Rightarrow> nat \<Rightarrow> nat \<Rightarrow> nat \<Rightarrow> nat \<Rightarrow> nat \<Rightarrow> byte list" where
  "cell_pixels bytes cw ch columns r c =
     concat (map (\<lambda>y. take cw (drop ((r * ch + y) * (columns * cw) + c * cw) bytes)) [0..<ch])"

text \<open>
  What the loader sends for row \<open>r\<close>, the calls of a row as a function of these bytes,
  and the sub-buffer that tile number \<open>k\<close> (in row-major order) is made of.
\<close>

definition chunk_data :: "byte list option \<Rightarrow> byte list \<times> nat \<Rightarrow> nat \<Rightarrow> byte list" where
  "chunk_data f bp r = take (unat chunkSize) (fst (chunk_state f bp (Suc r)))"

definition row_head :: "nat \<Rightarrow> u16 \<Rightarrow> u16 \<Rightarrow> u16 \<Rightarrow> byte list \<Rightarrow> event list" where
  "row_head got cw blockCount i bytes =
     [Vdp_adv_clear_buffer chunkStoreID,
      Fread 1 (unat chunkSize) got,
      Vdp_adv_write_block_data chunkStoreID chunkSize bytes,
      Vdp_adv_split_by_width_multiple_from chunkStoreID cw blockCount i]"

definition row_calls :: "nat \<Rightarrow> u16 \<Rightarrow> u16 \<Rightarrow> u16 \<Rightarrow> u16 \<Rightarrow> byte list \<Rightarrow> event list" where
  "row_calls got cw ch blockCount i bytes =
     row_head got cw blockCount i bytes @ convert_events cw ch i (unat blockCount)"

definition tile_column :: "byte list option \<Rightarrow> byte list \<times> nat \<Rightarrow> u16 \<Rightarrow> u16 \<Rightarrow> nat \<Rightarrow> byte list" where
  "tile_column f bp cw blockCount k =
     split_column (unat cw) (unat blockCount) (chunk_data f bp (k div unat blockCount))
       (k mod unat blockCount)"

text \<open>A conversion succeeds on a buffer that holds at least the pixels of the bitmap.\<close>

definition conv_ok :: "vdp \<Rightarrow> u16 \<Rightarrow> u16 \<Rightarrow> u16 \<Rightarrow> bool" where
  "conv_ok v cw ch i =
     (case buffers v i of None \<Rightarrow> False | Some bytes \<Rightarrow> unat cw * unat ch \<le> length bytes)"

section \<open>Inputs for the examples\<close>

text \<open>
  A disk without files and a disk with one file; the disk with the tile map of the
  program (128 by 80 pixels, one byte each); two keyboards: one that delivers ESC at
  poll \<open>k\<close>, one that never does.
\<close>

definition no_files :: filesystem where
  "no_files = (\<lambda>name. None)"

definition one_file :: "string \<Rightarrow> byte list \<Rightarrow> filesystem" where
  "one_file name bytes = (\<lambda>n. if n = name then Some bytes else None)"

definition tile_disk :: filesystem where
  "tile_disk = one_file fname (replicate 10240 0)"

definition esc_after :: "nat \<Rightarrow> nat \<Rightarrow> u8" where
  "esc_after k n = (if n = k then 27 else 0)"

definition never_esc :: "nat \<Rightarrow> u8" where
  "never_esc n = 0"

text \<open>A file of 100 bytes, all of them 7: shorter than one chunk.\<close>

definition short_bytes :: "byte list" where
  "short_bytes = replicate 100 7"

definition short_disk :: filesystem where
  "short_disk = one_file fname short_bytes"

text \<open>
  A file of 4096 bytes, the first 2048 of them 0 and the others 1: an image 64 pixels
  wide (4 cells of 16) and 64 high.
\<close>

definition striped_bytes :: "byte list" where
  "striped_bytes = replicate 2048 0 @ replicate 2048 1"

definition striped_disk :: filesystem where
  "striped_disk = one_file fname striped_bytes"

section \<open>Lemmas on the loops\<close>

lemma unat_inc_u8: "unat (c :: u8) < n \<Longrightarrow> n \<le> 255 \<Longrightarrow> unat (c + 1) = Suc (unat c)"
proof -
  assume "unat c < n" "n \<le> 255"
  then have "unat c + 1 < 2 ^ LENGTH(8)" by simp
  then show ?thesis by (simp add: unat_word_ariths)
qed

lemma convert_loop_unroll:
  "unat blockCount \<le> 255 \<Longrightarrow> unat rowLoop + n = unat blockCount \<Longrightarrow>
   convert_loop rowLoop blockCount cw ch startBitmapID st =
     Some (convert_n n cw ch startBitmapID st)"
proof (induction n arbitrary: rowLoop startBitmapID st)
  case 0
  then show ?case by (subst convert_loop.simps) simp
next
  case (Suc n)
  from Suc.prems have lt: "unat rowLoop < unat blockCount" by simp
  with Suc.prems have "unat (rowLoop + 1) = Suc (unat rowLoop)"
    by (intro unat_inc_u8)
  with Suc.prems have "unat (rowLoop + 1) + n = unat blockCount" by simp
  from Suc.IH [OF Suc.prems(1) this] lt show ?case
    by (subst convert_loop.simps) simp
qed

lemma convert_loop_returns:
  "convert_loop rowLoop blockCount cw ch startBitmapID st = Some y \<Longrightarrow> unat blockCount \<le> 255"
proof (rule convert_loop.raw_induct
         [where P = "\<lambda>rowLoop blockCount cw ch startBitmapID st y. unat blockCount \<le> 255"],
       goal_cases)
  case (1 convert_loop rowLoop blockCount cw ch startBitmapID st y)
  show ?case
  proof (cases "unat rowLoop < unat blockCount")
    case True
    with 1 show ?thesis by simp
  next
    case False
    have "unat rowLoop < 2 ^ LENGTH(8)" by (rule unsigned_less)
    with False show ?thesis by simp
  qed
qed

lemma chunk_loop_unroll:
  "unat rowCount \<le> 255 \<Longrightarrow> unat blockCount \<le> 255 \<Longrightarrow> unat chunkLoop + n = unat rowCount \<Longrightarrow>
   chunk_loop file chunkLoop rowCount blockCount cw ch startBitmapID st =
     Some (chunk_n file n blockCount cw ch startBitmapID st)"
proof (induction n arbitrary: chunkLoop startBitmapID st)
  case 0
  then show ?case by (subst chunk_loop.simps) simp
next
  case (Suc n)
  from Suc.prems have lt: "unat chunkLoop < unat rowCount" by simp
  with Suc.prems have "unat (chunkLoop + 1) = Suc (unat chunkLoop)"
    by (intro unat_inc_u8)
  with Suc.prems have *: "unat (chunkLoop + 1) + n = unat rowCount" by simp
  have inner: "convert_loop 0 blockCount cw ch startBitmapID
                 (chunk_head file cw blockCount startBitmapID st) =
               Some (convert_n (unat blockCount) cw ch startBitmapID
                 (chunk_head file cw blockCount startBitmapID st))"
    using Suc.prems(2) by (intro convert_loop_unroll) simp_all
  show ?case
    using lt inner Suc.IH [OF Suc.prems(1,2) *]
    by (subst chunk_loop.simps) (simp add: case_prod_beta)
qed

lemma chunk_loop_zero_rows:
  "unat rowCount = 0 \<Longrightarrow>
   chunk_loop file chunkLoop rowCount blockCount cw ch startBitmapID st = Some (startBitmapID, st)"
  by (subst chunk_loop.simps) simp

lemma chunk_loop_returns:
  "chunk_loop file chunkLoop rowCount blockCount cw ch startBitmapID st = Some y \<Longrightarrow>
   unat rowCount \<le> 255 \<and> (unat chunkLoop < unat rowCount \<longrightarrow> unat blockCount \<le> 255)"
proof (rule chunk_loop.raw_induct
         [where P = "\<lambda>f chunkLoop rowCount blockCount cw ch startBitmapID st y.
            unat rowCount \<le> 255 \<and> (unat chunkLoop < unat rowCount \<longrightarrow> unat blockCount \<le> 255)"],
       goal_cases)
  case (1 chunk_loop f chunkLoop rowCount blockCount cw ch startBitmapID st y)
  show ?case
  proof (cases "unat chunkLoop < unat rowCount")
    case True
    with 1(3) obtain i' st' where
      r: "convert_loop 0 blockCount cw ch startBitmapID
            (chunk_head f cw blockCount startBitmapID st) = Some (i', st')"
      and rest: "chunk_loop f (chunkLoop + 1) rowCount blockCount cw ch i' st' = Some y"
      by (auto simp: bind_eq_Some_conv)
    from r have "unat blockCount \<le> 255" by (rule convert_loop_returns)
    moreover from 1(2) [OF rest] have "unat rowCount \<le> 255" by simp
    ultimately show ?thesis by simp
  next
    case False
    have "unat chunkLoop < 2 ^ LENGTH(8)" by (rule unsigned_less)
    with False show ?thesis by simp
  qed
qed

lemma emit_simps [simp]:
  "trace (emit e st) = trace st @ [e]"
  "readChunk (emit e st) = readChunk st"
  "fpos (emit e st) = fpos st"
  by (simp_all add: emit_def)

lemma convert_events_0 [simp]: "convert_events cw ch i 0 = []"
  by (simp add: convert_events_def)

lemma convert_events_Suc:
  "convert_events cw ch i (Suc n) =
     Vdp_adv_select_bitmap i # Vdp_adv_bitmap_from_buffer cw ch RGBA2222_format
       # convert_events cw ch (i + 1) n"
  unfolding convert_events_def map_upt_Suc
  by (simp add: add.assoc add.commute [of 1])

lemma convert_n_eq:
  "convert_n n cw ch i st =
     (i + of_nat n, st\<lparr>trace := trace st @ convert_events cw ch i n\<rparr>)"
proof (induction n arbitrary: i st)
  case 0
  show ?case by simp
next
  case (Suc n)
  show ?case
    by (simp add: Suc.IH convert_events_Suc convert_body_def add.assoc add.commute [of 1])
qed

lemma chunk_state_0 [simp]: "chunk_state f bp 0 = bp"
  by (simp add: chunk_state_def)

lemma chunk_state_Suc:
  "chunk_state f bp (Suc r) = chunk_state f (fread_step f (unat chunkSize) bp) r"
  by (simp add: chunk_state_def funpow_swap1)

lemma row_events_Suc:
  "row_events f cw ch blockCount i bp (Suc r) =
     row_events f cw ch blockCount (i + of_nat (unat blockCount))
       (fread_step f (unat chunkSize) bp) r"
  unfolding row_events_def chunk_state_Suc [of f bp]
  by (simp add: add.assoc)

lemma loader_events_0 [simp]: "loader_events f cw ch 0 blockCount i bp = []"
  by (simp add: loader_events_def)

lemma loader_events_Suc:
  "loader_events f cw ch (Suc n) blockCount i bp =
     row_events f cw ch blockCount i bp 0
     @ loader_events f cw ch n blockCount (i + of_nat (unat blockCount))
         (fread_step f (unat chunkSize) bp)"
  unfolding loader_events_def map_upt_Suc
  by (simp add: row_events_Suc)

lemma chunk_head_eq:
  "chunk_head f cw blockCount i st =
     st\<lparr>trace := trace st @
         [Vdp_adv_clear_buffer chunkStoreID,
          Fread 1 (unat chunkSize)
            (snd (fread_step f (unat chunkSize) (readChunk st, fpos st)) - fpos st),
          Vdp_adv_write_block_data chunkStoreID chunkSize
            (take (unat chunkSize) (fst (fread_step f (unat chunkSize) (readChunk st, fpos st)))),
          Vdp_adv_split_by_width_multiple_from chunkStoreID cw blockCount i],
        readChunk := fst (fread_step f (unat chunkSize) (readChunk st, fpos st)),
        fpos := snd (fread_step f (unat chunkSize) (readChunk st, fpos st))\<rparr>"
  by (simp add: chunk_head_def fread_readChunk_def fread_step_def emit_def Let_def)

lemma chunk_n_eq:
  "chunk_n f n blockCount cw ch i st =
     (i + of_nat (n * unat blockCount),
      st\<lparr>trace := trace st @ loader_events f cw ch n blockCount i (readChunk st, fpos st),
         readChunk := fst (chunk_state f (readChunk st, fpos st) n),
         fpos := snd (chunk_state f (readChunk st, fpos st) n)\<rparr>)"
proof (induction n arbitrary: i st)
  case 0
  show ?case by simp
next
  case (Suc n)
  show ?case
    by (simp add: convert_n_eq Suc.IH chunk_head_eq loader_events_Suc row_events_def
          chunk_state_Suc add.assoc)
qed

lemma chunk_loop_eq:
  assumes "loader_terminates rowCount blockCount"
  shows "chunk_loop f 0 rowCount blockCount cw ch i st =
           Some (chunk_n f (unat rowCount) blockCount cw ch i st)"
proof (cases "unat rowCount = 0")
  case True
  then show ?thesis by (simp add: chunk_loop_zero_rows)
next
  case False
  with assms show ?thesis
    by (intro chunk_loop_unroll) (simp_all add: loader_terminates_def)
qed

lemma load_tiles_from_file_eq:
  assumes "loader_terminates rowCount blockCount"
  shows "load_tiles_from_file fs fileName i cw ch rowCount blockCount st =
     Some (st\<lparr>trace := trace st @ [Fopen fileName ''r'']
                  @ loader_events (fs fileName) cw ch (unat rowCount) blockCount i
                      (readChunk st, 0)
                  @ [Fclose],
              readChunk := fst (chunk_state (fs fileName) (readChunk st, 0) (unat rowCount)),
              fpos := snd (chunk_state (fs fileName) (readChunk st, 0) (unat rowCount))\<rparr>)"
  by (simp add: load_tiles_from_file_def chunk_loop_eq [OF assms] chunk_n_eq emit_def)

lemma load_tiles_from_file_None:
  assumes "\<not> loader_terminates rowCount blockCount"
  shows "load_tiles_from_file fs fileName i cw ch rowCount blockCount st = None"
proof (rule ccontr)
  assume "load_tiles_from_file fs fileName i cw ch rowCount blockCount st \<noteq> None"
  then obtain y where
    "chunk_loop (fs fileName) 0 rowCount blockCount cw ch i
       (emit (Fopen fileName ''r'') (st\<lparr>fpos := 0\<rparr>)) = Some y"
    by (auto simp: load_tiles_from_file_def bind_eq_Some_conv)
  from chunk_loop_returns [OF this] assms show False
    by (auto simp: loader_terminates_def)
qed

lemma loader_outcome_present:
  assumes "fs fileName = Some bytes"
  shows "loader_outcome fs fileName i cw ch rowCount blockCount st =
     (if loader_terminates rowCount blockCount
      then Returns (st\<lparr>trace := trace st @ [Fopen fileName ''r'']
                  @ loader_events (fs fileName) cw ch (unat rowCount) blockCount i
                      (readChunk st, 0)
                  @ [Fclose],
              readChunk := fst (chunk_state (fs fileName) (readChunk st, 0) (unat rowCount)),
              fpos := snd (chunk_state (fs fileName) (readChunk st, 0) (unat rowCount))\<rparr>)
      else Never_returns)"
proof (cases "loader_terminates rowCount blockCount")
  case True
  then show ?thesis
    unfolding loader_outcome_def assms
    by (simp add: load_tiles_from_file_eq [OF True] assms)
next
  case False
  then show ?thesis
    unfolding loader_outcome_def assms
    by (simp add: load_tiles_from_file_None [OF False])
qed

lemma plot_row_events_0 [simp]: "plot_row_events r c0 0 i = []"
  by (simp add: plot_row_events_def)

lemma plot_row_events_Suc:
  "plot_row_events r c0 (Suc n) i =
     Vdp_adv_select_bitmap i # Vdp_plot_bitmap (10 + 20 * int c0) (10 + 20 * int r)
       # plot_row_events r (Suc c0) n (i + 1)"
  unfolding plot_row_events_def map_upt_Suc
  by (simp add: add.assoc add.commute [of 1])

declare column_loop.simps [simp del] row_loop.simps [simp del]

lemma column_loop_eq:
  "unat cLoop + n = unat columns \<Longrightarrow>
   column_loop rLoop cLoop columns i st =
     (i + of_nat n, st\<lparr>trace := trace st @ plot_row_events (unat rLoop) (unat cLoop) n i\<rparr>)"
proof (induction n arbitrary: cLoop i st)
  case 0
  then have "\<not> cLoop < columns" by (simp add: word_less_nat_alt)
  then show ?case by (subst column_loop.simps) simp
next
  case (Suc n)
  then have lt: "cLoop < columns" by (simp add: word_less_nat_alt)
  have "unat columns \<le> 255"
    using unsigned_less [of columns, where 'a = nat] by simp
  with Suc.prems have inc: "unat (cLoop + 1) = Suc (unat cLoop)"
    by (intro unat_inc_u8 [where n = "unat columns"]) simp_all
  with Suc.prems have "unat (cLoop + 1) + n = unat columns" by simp
  from Suc.IH [OF this] lt inc show ?case
    by (subst column_loop.simps)
       (simp add: plot_row_events_Suc plot_body_def add.assoc add.commute [of 1]
          mult.commute)
qed

lemma row_loop_eq:
  "unat rLoop + n = unat rows \<Longrightarrow>
   row_loop rLoop rows columns i st =
     (i + of_nat (n * unat columns),
      st\<lparr>trace := trace st @ concat (map (\<lambda>k.
           plot_row_events (unat rLoop + k) 0 (unat columns) (i + of_nat (k * unat columns)))
           [0..<n])\<rparr>)"
proof (induction n arbitrary: rLoop i st)
  case 0
  then have "\<not> rLoop < rows" by (simp add: word_less_nat_alt)
  then show ?case by (subst row_loop.simps) simp
next
  case (Suc n)
  then have lt: "rLoop < rows" by (simp add: word_less_nat_alt)
  have "unat rows \<le> 255"
    using unsigned_less [of rows, where 'a = nat] by simp
  with Suc.prems have inc: "unat (rLoop + 1) = Suc (unat rLoop)"
    by (intro unat_inc_u8 [where n = "unat rows"]) simp_all
  with Suc.prems have "unat (rLoop + 1) + n = unat rows" by simp
  from Suc.IH [OF this] lt inc show ?case
    by (subst row_loop.simps)
       (simp add: column_loop_eq [where n = "unat columns"] map_upt_Suc add.assoc
          distrib_right del: upt_Suc)
qed

lemma display_events_rows:
  "display_events rows columns i =
     concat (map (\<lambda>r. plot_row_events r 0 columns (i + of_nat (r * columns))) [0..<rows])"
  by (simp add: display_events_def plot_row_events_def add.assoc)

lemma display_tiles_eq:
  "display_tiles rows columns i st =
     st\<lparr>trace := trace st @ display_events (unat rows) (unat columns) i\<rparr>"
  by (simp add: display_tiles_def row_loop_eq [where n = "unat rows"] display_events_rows)

lemma filter_plot_row: "length (filter is_plot (plot_row_events r c0 n i)) = n"
  by (induction n arbitrary: c0 i) (simp_all add: plot_row_events_Suc)

lemma filter_plot_display:
  "length (filter is_plot (display_events rows columns i)) = rows * columns"
  unfolding display_events_rows
  by (induction rows) (simp_all add: filter_plot_row)

lemma poll_events_0 [simp]: "poll_events keys n 0 = []"
  by (simp add: poll_events_def)

lemma poll_events_Suc:
  "poll_events keys n (Suc k) = Vdp_getKeyCode (keys n) # poll_events keys (Suc n) k"
  unfolding poll_events_def map_upt_Suc by simp

lemma wait_loop_eq:
  "keys (n + k) = 27 \<Longrightarrow> (\<And>j. j < k \<Longrightarrow> keys (n + j) \<noteq> 27) \<Longrightarrow>
   wait_loop keys n st = Some (st\<lparr>trace := trace st @ poll_events keys n (Suc k)\<rparr>)"
proof (induction k arbitrary: n st)
  case 0
  then show ?case
    by (subst wait_loop.simps) (simp add: poll_events_Suc emit_def)
next
  case (Suc k)
  from Suc.prems(2) [of 0] have ne: "keys n \<noteq> 27" by simp
  have "wait_loop keys (Suc n) (emit (Vdp_getKeyCode (keys n)) st) =
          Some (emit (Vdp_getKeyCode (keys n)) st
                 \<lparr>trace := trace (emit (Vdp_getKeyCode (keys n)) st)
                    @ poll_events keys (Suc n) (Suc k)\<rparr>)"
  proof (rule Suc.IH)
    show "keys (Suc n + k) = 27" using Suc.prems(1) by simp
    show "keys (Suc n + j) \<noteq> 27" if "j < k" for j
      using Suc.prems(2) [of "Suc j"] that by simp
  qed
  with ne show ?case
    by (subst wait_loop.simps) (simp add: poll_events_Suc [of keys n] emit_def)
qed

lemma wait_loop_returns:
  "wait_loop keys n st = Some y \<Longrightarrow> \<exists>k. keys (n + k) = 27"
proof (rule wait_loop.raw_induct
         [where P = "\<lambda>keys n st y. \<exists>k. keys (n + k) = 27"], goal_cases)
  case (1 wait_loop keys n st y)
  show ?case
  proof (cases "keys n = 27")
    case True
    then have "keys (n + 0) = 27" by simp
    then show ?thesis by blast
  next
    case False
    with 1(3) have "wait_loop keys (Suc n) (emit (Vdp_getKeyCode (keys n)) st) = Some y"
      by simp
    from 1(2) [OF this] obtain k where "keys (Suc n + k) = 27" by blast
    then have "keys (n + Suc k) = 27" by simp
    then show ?thesis by blast
  qed
qed

lemma constants_terminate: "loader_terminates cellRows cellColumns"
  by (simp add: loader_terminates_def cellRows_def cellColumns_def)

lemma main_setup_eq: "main_setup BLUE st = st\<lparr>trace := trace st @ setup_events BLUE\<rparr>"
  by (simp add: main_setup_def setup_events_def emit_def)

lemma main_draw_eq:
  "main_draw BLUE fs =
     Some \<lparr>trace = draw_events BLUE fs,
           readChunk = fst (chunk_state (fs fname) (readChunk_init, 0) (unat cellRows)),
           fpos = snd (chunk_state (fs fname) (readChunk_init, 0) (unat cellRows))\<rparr>"
  by (simp add: main_draw_def load_tiles_from_file_eq [OF constants_terminate]
        main_setup_eq display_tiles_eq state_init_def draw_events_def)

lemma main_eq:
  assumes "keys k = 27" and "\<And>j. j < k \<Longrightarrow> keys j \<noteq> 27"
  shows "map_option (\<lambda>r. (fst r, trace (snd r))) (main BLUE fs keys) =
           Some (0, draw_events BLUE fs @ poll_events keys 0 (Suc k) @ exit_events)"
proof -
  have "wait_loop keys 0 st = Some (st\<lparr>trace := trace st @ poll_events keys 0 (Suc k)\<rparr>)"
    for st
    using assms by (intro wait_loop_eq) simp_all
  then show ?thesis
    by (simp add: main_def main_draw_eq main_exit_def exit_events_def)
qed

lemma main_None:
  assumes "\<And>n. keys n \<noteq> 27"
  shows "main BLUE fs keys = None"
proof (rule ccontr)
  assume "main BLUE fs keys \<noteq> None"
  then obtain st y where "wait_loop keys 0 st = Some y"
    by (auto simp: main_def bind_eq_Some_conv)
  from wait_loop_returns [OF this] assms show False by auto
qed

lemma main_returns_first_esc:
  assumes "main BLUE fs keys = Some r"
  shows "\<exists>k. keys k = 27 \<and> (\<forall>j<k. keys j \<noteq> 27)"
proof -
  have "\<exists>n. keys n = 27"
    using assms main_None [of keys BLUE fs] by auto
  then have "keys (LEAST n. keys n = 27) = 27"
    and "\<forall>j<LEAST n. keys n = 27. keys j \<noteq> 27"
    by (auto intro: LeastI_ex dest: not_less_Least)
  then show ?thesis by blast
qed

lemma converted_append:
  "converted sel (xs @ ys) = converted sel xs @ converted (selected_after sel xs) ys"
  by (induction sel xs rule: converted.induct) simp_all

lemma plotted_append:
  "plotted sel (xs @ ys) = plotted sel xs @ plotted (selected_after sel xs) ys"
  by (induction sel xs rule: plotted.induct) simp_all

lemma map_upt_add:
  "map f [0..<a + b] = map f [0..<a] @ map (\<lambda>k. f (a + k)) [0..<b]"
proof (induction b)
  case 0
  show ?case by simp
next
  case (Suc b)
  have "[0..<a + Suc b] = [0..<a + b] @ [a + b]" by simp
  with Suc show ?case by simp
qed

lemma map_upt_shift:
  "map (\<lambda>j. (i :: u16) + of_nat j) [0..<Suc n] = i # map (\<lambda>j. (i + 1) + of_nat j) [0..<n]"
  unfolding map_upt_Suc by (simp add: add.assoc)

lemma converted_convert_events:
  "converted sel (convert_events cw ch i n) = map (\<lambda>j. i + of_nat j) [0..<n]"
proof (induction n arbitrary: sel i)
  case 0
  show ?case by simp
next
  case (Suc n)
  have "converted sel (convert_events cw ch i (Suc n)) =
          i # converted i (convert_events cw ch (i + 1) n)"
    by (simp add: convert_events_Suc)
  also have "\<dots> = i # map (\<lambda>j. (i + 1) + of_nat j) [0..<n]"
    using Suc.IH [of i "i + 1"] by simp
  also have "\<dots> = map (\<lambda>j. i + of_nat j) [0..<Suc n]"
    by (rule map_upt_shift [symmetric])
  finally show ?case .
qed

lemma plotted_convert_events: "plotted sel (convert_events cw ch i n) = []"
proof (induction n arbitrary: sel i)
  case 0
  show ?case by simp
next
  case (Suc n)
  from Suc.IH [of i "i + 1"] show ?case
    by (simp add: convert_events_Suc)
qed

lemma converted_row_events:
  "converted sel (row_events f cw ch blockCount i bp r) =
     map (\<lambda>j. i + of_nat (r * unat blockCount) + of_nat j) [0..<unat blockCount]"
  unfolding row_events_def by (simp add: converted_convert_events)

lemma plotted_row_events: "plotted sel (row_events f cw ch blockCount i bp r) = []"
  unfolding row_events_def by (simp add: plotted_convert_events)

lemma converted_loader_events:
  "converted sel (loader_events f cw ch n blockCount i bp) =
     map (\<lambda>k. i + of_nat k) [0..<n * unat blockCount]"
proof (induction n arbitrary: sel i bp)
  case 0
  show ?case by simp
next
  case (Suc n)
  let ?b = "unat blockCount"
  let ?row = "row_events f cw ch blockCount i bp 0"
  have "converted sel (loader_events f cw ch (Suc n) blockCount i bp) =
          converted sel ?row
          @ converted (selected_after sel ?row)
              (loader_events f cw ch n blockCount (i + of_nat ?b)
                 (fread_step f (unat chunkSize) bp))"
    by (simp only: loader_events_Suc converted_append)
  also have "\<dots> = map (\<lambda>k. i + of_nat k) [0..<?b]
                   @ map (\<lambda>k. i + of_nat ?b + of_nat k) [0..<n * ?b]"
    using Suc.IH [of "selected_after sel ?row" "i + of_nat ?b" "fread_step f (unat chunkSize) bp"]
          converted_row_events [of sel f cw ch blockCount i bp 0]
    by simp
  also have "\<dots> = map (\<lambda>k. i + of_nat k) [0..<?b + n * ?b]"
    by (simp only: map_upt_add of_nat_add add.assoc)
  finally show ?case by simp
qed

lemma plotted_loader_events: "plotted sel (loader_events f cw ch n blockCount i bp) = []"
proof (induction n arbitrary: sel i bp)
  case 0
  show ?case by simp
next
  case (Suc n)
  show ?case
    by (simp only: loader_events_Suc plotted_append plotted_row_events Suc.IH append_Nil)
qed

lemma converted_plot_row: "converted sel (plot_row_events r c0 n i) = []"
proof (induction n arbitrary: sel c0 i)
  case 0
  show ?case by simp
next
  case (Suc n)
  from Suc.IH [of i "Suc c0" "i + 1"] show ?case
    by (simp add: plot_row_events_Suc)
qed

lemma map_upt_shift_plot:
  "map (\<lambda>c. ((i :: u16) + of_nat c, 10 + 20 * int (c0 + c), y)) [0..<Suc n] =
     (i, 10 + 20 * int c0, y)
       # map (\<lambda>c. ((i + 1) + of_nat c, 10 + 20 * int (Suc c0 + c), y)) [0..<n]"
  unfolding map_upt_Suc by (simp add: add.assoc)

lemma plotted_plot_row:
  "plotted sel (plot_row_events r c0 n i) =
     map (\<lambda>c. (i + of_nat c, 10 + 20 * int (c0 + c), 10 + 20 * int r)) [0..<n]"
proof (induction n arbitrary: sel c0 i)
  case 0
  show ?case by simp
next
  case (Suc n)
  have "plotted sel (plot_row_events r c0 (Suc n) i) =
          (i, 10 + 20 * int c0, 10 + 20 * int r)
            # plotted i (plot_row_events r (Suc c0) n (i + 1))"
    by (simp add: plot_row_events_Suc)
  also have "\<dots> = (i, 10 + 20 * int c0, 10 + 20 * int r)
       # map (\<lambda>c. ((i + 1) + of_nat c, 10 + 20 * int (Suc c0 + c), 10 + 20 * int r)) [0..<n]"
    using Suc.IH [of i "Suc c0" "i + 1"] by simp
  also have "\<dots> = map (\<lambda>c. (i + of_nat c, 10 + 20 * int (c0 + c), 10 + 20 * int r)) [0..<Suc n]"
    by (rule map_upt_shift_plot [symmetric])
  finally show ?case .
qed

lemma converted_display_events: "converted sel (display_events rows columns i) = []"
  unfolding display_events_rows
  by (induction rows arbitrary: sel) (simp_all add: converted_append converted_plot_row)

lemma plotted_display_events:
  "plotted sel (display_events rows columns i) =
     concat (map (\<lambda>r. map (\<lambda>c. (i + of_nat (r * columns + c), 10 + 20 * int c, 10 + 20 * int r))
                          [0..<columns]) [0..<rows])"
  unfolding display_events_rows
  by (induction rows arbitrary: sel)
     (simp_all add: plotted_append plotted_plot_row add.assoc)

lemma converted_setup [simp]: "converted sel (setup_events BLUE) = []"
  by (simp add: setup_events_def)

lemma plotted_setup [simp]: "plotted sel (setup_events BLUE) = []"
  by (simp add: setup_events_def)

lemma converted_draw_events:
  "converted sel (draw_events BLUE fs) = map of_nat [0..<40]"
  unfolding draw_events_def
  by (simp add: converted_append converted_loader_events
        converted_display_events cellRows_def cellColumns_def tileStartID_def del: upt_Suc)

lemma plotted_draw_events:
  "plotted sel (draw_events BLUE fs) =
     concat (map (\<lambda>r. map (\<lambda>c. (of_nat (r * 8 + c), 10 + 20 * int c, 10 + 20 * int r))
                          [0..<8]) [0..<5])"
  unfolding draw_events_def
  by (simp add: plotted_append plotted_loader_events
        plotted_display_events tileStartID_def del: upt_Suc)

subsection \<open>Plots and conversions\<close>

lemma no_plot_convert_events: "filter is_plot (convert_events cw ch i n) = []"
  by (simp add: convert_events_def filter_concat)

lemma no_plot_loader_events: "filter is_plot (loader_events f cw ch n blockCount i bp) = []"
  by (simp add: loader_events_def row_events_def filter_concat no_plot_convert_events)

lemma count_convert_events: "length (filter is_convert (convert_events cw ch i n)) = n"
  by (induction n arbitrary: i) (simp_all add: convert_events_Suc)

lemma count_convert_loader_events:
  "length (filter is_convert (loader_events f cw ch n blockCount i bp)) = n * unat blockCount"
proof (induction n arbitrary: i bp)
  case 0
  show ?case by simp
next
  case (Suc n)
  from Suc.IH [of "i + of_nat (unat blockCount)" "fread_step f (unat chunkSize) bp"]
  show ?case
    unfolding loader_events_Suc by (simp add: row_events_def count_convert_events)
qed

lemma no_convert_display_events: "filter is_convert (display_events rows columns i) = []"
  by (simp add: display_events_def filter_concat)

lemma no_convert_poll_events: "filter is_convert (poll_events keys n k) = []"
  by (simp add: poll_events_def filter_empty_conv)

lemma filter_dropWhile_Nil: "filter P xs = [] \<Longrightarrow> filter P (dropWhile Q xs) = []"
  by (auto simp: filter_empty_conv dest: set_dropWhileD)

lemma filter_takeWhile_Nil: "filter P xs = [] \<Longrightarrow> filter P (takeWhile Q xs) = []"
  by (auto simp: filter_empty_conv dest: set_takeWhileD)

lemma draw_events_split: "draw_events BLUE fs = load_events BLUE fs @ display_events 5 8 tileStartID"
  by (simp add: draw_events_def load_events_def)

lemma no_plot_load_events: "filter is_plot (load_events BLUE fs) = []"
  by (simp add: load_events_def setup_events_def no_plot_loader_events)

lemma count_convert_load_events: "length (filter is_convert (load_events BLUE fs)) = 40"
  by (simp add: load_events_def setup_events_def count_convert_loader_events
        cellRows_def cellColumns_def)

lemma before_first_plot_append:
  "filter is_plot xs = [] \<Longrightarrow> before_first_plot (xs @ ys) = xs @ before_first_plot ys"
  by (simp add: before_first_plot_def filter_empty_conv takeWhile_append2)

lemma from_first_plot_append:
  "filter is_plot xs = [] \<Longrightarrow> from_first_plot (xs @ ys) = from_first_plot ys"
  by (simp add: from_first_plot_def filter_empty_conv dropWhile_append2)

lemma conversions_before_first_plot:
  assumes "filter is_convert rest = []"
  shows "length (filter is_convert (before_first_plot (draw_events BLUE fs @ rest))) = 40"
    and "filter is_convert (from_first_plot (draw_events BLUE fs @ rest)) = []"
proof -
  have none: "filter is_convert (display_events 5 8 tileStartID @ rest) = []"
    using assms by (simp add: no_convert_display_events)
  have eq: "draw_events BLUE fs @ rest =
              load_events BLUE fs @ (display_events 5 8 tileStartID @ rest)"
    by (simp add: draw_events_split)
  show "length (filter is_convert (before_first_plot (draw_events BLUE fs @ rest))) = 40"
    unfolding eq before_first_plot_append [OF no_plot_load_events]
    using filter_takeWhile_Nil [OF none]
    by (simp add: count_convert_load_events before_first_plot_def)
  show "filter is_convert (from_first_plot (draw_events BLUE fs @ rest)) = []"
    unfolding eq from_first_plot_append [OF no_plot_load_events]
    using filter_dropWhile_Nil [OF none]
    by (simp add: from_first_plot_def)
qed

subsection \<open>Reads stay inside the array\<close>

lemma fread_bytes_length: "length (fread_bytes f pos n) \<le> n"
  by (simp add: fread_bytes_def split: option.split)

lemma fread_step_length:
  "n \<le> length (fst bp) \<Longrightarrow> length (fst (fread_step f n bp)) = length (fst bp)"
  using fread_bytes_length [of f "snd bp" n]
  by (simp add: fread_step_def Let_def)

lemma fread_step_got: "snd (fread_step f n bp) - snd bp \<le> n"
  using fread_bytes_length [of f "snd bp" n]
  by (simp add: fread_step_def Let_def)

lemma chunk_state_length:
  "length (fst bp) = 2048 \<Longrightarrow> length (fst (chunk_state f bp r)) = 2048"
proof (induction r arbitrary: bp)
  case 0
  then show ?case by simp
next
  case (Suc r)
  have "length (fst (fread_step f (unat chunkSize) bp)) = 2048"
    using Suc.prems by (simp add: fread_step_length chunkSize_def)
  from Suc.IH [OF this] show ?case
    by (simp add: chunk_state_Suc)
qed

lemma reads_within_convert_events:
  "list_all (reads_within cap) (convert_events cw ch i n)"
  by (simp add: convert_events_def list_all_iff)

lemma chunk_state_step:
  "chunk_state f bp (Suc r) = fread_step f (unat chunkSize) (chunk_state f bp r)"
  by (simp add: chunk_state_def)

lemma reads_within_row_events:
  "list_all (reads_within 2048) (row_events f cw ch blockCount i bp r)"
  using fread_step_got [of f "unat chunkSize" "chunk_state f bp r"]
  by (simp add: row_events_def reads_within_convert_events chunk_state_step chunkSize_def)

lemma reads_within_loader_events:
  "list_all (reads_within 2048) (loader_events f cw ch n blockCount i bp)"
  by (simp add: loader_events_def list_all_iff)
     (use reads_within_row_events in \<open>auto simp: list_all_iff\<close>)

subsection \<open>The file does not change the calls\<close>

lemma shape_convert_events: "map shape (convert_events cw ch i n) = convert_events cw ch i n"
  by (simp add: convert_events_def map_concat comp_def)

lemma shape_row_events_closed:
  "map shape (row_events f cw ch blockCount i bp r) =
     [Vdp_adv_clear_buffer chunkStoreID,
      Fread 1 (unat chunkSize) 0,
      Vdp_adv_write_block_data chunkStoreID chunkSize [],
      Vdp_adv_split_by_width_multiple_from chunkStoreID cw blockCount
        (i + of_nat (r * unat blockCount))]
     @ convert_events cw ch (i + of_nat (r * unat blockCount)) (unat blockCount)"
  unfolding row_events_def by (simp add: shape_convert_events)

lemma shape_load_calls:
  "map shape ([Fopen fileName ''r''] @ loader_events f cw ch n blockCount i bp @ [Fclose]) =
     loader_shape fileName i cw ch n blockCount"
  unfolding loader_shape_def loader_events_def
  by (simp add: map_concat comp_def shape_row_events_closed)

subsection \<open>Buffer IDs\<close>

lemma tile_ids_convert_events:
  "set (concat (map tile_ids (convert_events cw ch i n))) = set (map (\<lambda>j. i + of_nat j) [0..<n])"
  by (auto simp: convert_events_def)

lemma tile_ids_row_events:
  "set (concat (map tile_ids (row_events f cw ch blockCount i bp r))) =
     set (map (\<lambda>j. i + of_nat (r * unat blockCount) + of_nat j) [0..<unat blockCount])"
  using tile_ids_convert_events [of cw ch "i + of_nat (r * unat blockCount)" "unat blockCount"]
  unfolding row_events_def by simp

lemma tile_ids_loader_events:
  "set (concat (map tile_ids (loader_events f cw ch n blockCount i bp))) =
     set (map (\<lambda>k. i + of_nat k) [0..<n * unat blockCount])"
proof (induction n arbitrary: i bp)
  case 0
  show ?case by simp
next
  case (Suc n)
  let ?b = "unat blockCount"
  have "set (concat (map tile_ids (loader_events f cw ch (Suc n) blockCount i bp))) =
          set (map (\<lambda>k. i + of_nat k) [0..<?b])
          \<union> set (map (\<lambda>k. i + of_nat ?b + of_nat k) [0..<n * ?b])"
    using Suc.IH [of "i + of_nat ?b" "fread_step f (unat chunkSize) bp"]
          tile_ids_row_events [of f cw ch blockCount i bp 0]
    by (simp add: loader_events_Suc)
  also have "\<dots> = set (map (\<lambda>k. i + of_nat k) [0..<?b + n * ?b])"
    by (simp only: map_upt_add set_append of_nat_add add.assoc)
  finally show ?case by simp
qed

lemma chunk_ids_convert_events: "concat (map chunk_ids (convert_events cw ch i n)) = []"
  by (simp add: convert_events_def)

lemma chunk_ids_row_events:
  "set (concat (map chunk_ids (row_events f cw ch blockCount i bp r))) = {chunkStoreID}"
  unfolding row_events_def by (simp add: chunk_ids_convert_events)

lemma chunk_ids_loader_events:
  "0 < n \<Longrightarrow>
   set (concat (map chunk_ids (loader_events f cw ch n blockCount i bp))) = {chunkStoreID}"
proof -
  assume "0 < n"
  have "set (concat (map chunk_ids (loader_events f cw ch n blockCount i bp))) =
          (\<Union>r\<in>{0..<n}. set (concat (map chunk_ids (row_events f cw ch blockCount i bp r))))"
    unfolding loader_events_def by auto
  also have "\<dots> = (\<Union>r\<in>{0..<n}. {chunkStoreID})"
    by (simp only: chunk_ids_row_events)
  also have "\<dots> = {chunkStoreID}"
    using \<open>0 < n\<close> by auto
  finally show ?thesis .
qed

lemma tile_id_not_chunk_store:
  "chunkStoreID \<notin> set (map (of_nat :: nat \<Rightarrow> u16) [0..<40])"
proof
  assume "chunkStoreID \<in> set (map (of_nat :: nat \<Rightarrow> u16) [0..<40])"
  then obtain k where k: "k < 40" and eq: "(of_nat k :: u16) = 5000"
    by (auto simp: chunkStoreID_def)
  from k have "unat (of_nat k :: u16) = k"
    by (simp add: unat_of_nat)
  with eq k show False by simp
qed

lemma load_constants_ids:
  "\<exists>st'. load_tiles_from_file fs fname tileStartID cellWidth cellHeight cellRows cellColumns st
            = Some st'
     \<and> set (concat (map tile_ids (drop (length (trace st)) (trace st')))) =
           set (map of_nat [0..<40])
     \<and> set (concat (map chunk_ids (drop (length (trace st)) (trace st')))) = {chunkStoreID}"
proof -
  let ?L = "loader_events (fs fname) cellWidth cellHeight (unat cellRows) cellColumns tileStartID
              (readChunk st, 0)"
  have t: "set (concat (map tile_ids ?L)) = set (map of_nat [0..<40])"
    using tile_ids_loader_events
            [of "fs fname" cellWidth cellHeight "unat cellRows" cellColumns tileStartID
                "(readChunk st, 0)"]
    by (simp add: cellRows_def cellColumns_def tileStartID_def)
  have c: "set (concat (map chunk_ids ?L)) = {chunkStoreID}"
    by (rule chunk_ids_loader_events) (simp add: cellRows_def)
  have "set (concat (map tile_ids ([Fopen fname ''r''] @ ?L @ [Fclose]))) =
          set (concat (map tile_ids ?L))"
    and "set (concat (map chunk_ids ([Fopen fname ''r''] @ ?L @ [Fclose]))) =
          set (concat (map chunk_ids ?L))"
    by simp_all
  with t c show ?thesis
    by (simp add: load_tiles_from_file_eq [OF constants_terminate])
qed

subsection \<open>The calls of the loader on the VDP\<close>

lemma vdp_run_Nil [simp]: "vdp_run [] v = v"
  by (simp add: vdp_run_def)

lemma vdp_run_Cons [simp]: "vdp_run (e # t) v = vdp_run t (vdp_exec e v)"
  by (simp add: vdp_run_def)

lemma vdp_run_append [simp]: "vdp_run (t @ t') v = vdp_run t' (vdp_run t v)"
  by (simp add: vdp_run_def)

lemma vdp_run_rejecting_none: "vdp_run_rejecting (\<lambda>n. False) t v = vdp_run t v"
proof -
  have "fold vdp_exec t v = fold vdp_exec (map snd (enumerate 0 t)) v"
    by simp
  also have "\<dots> = fold (\<lambda>ne. vdp_exec (snd ne)) (enumerate 0 t) v"
    by (simp only: fold_map comp_def)
  finally show ?thesis
    by (simp add: vdp_run_rejecting_def vdp_run_def)
qed

lemma unat_sub_eq_iff:
  "n < 65536 \<Longrightarrow> unat ((i :: u16) - b) = n \<longleftrightarrow> i = b + of_nat n"
proof
  assume n: "n < 65536" and eq: "unat (i - b) = n"
  have "of_nat (unat (i - b)) = i - b" by simp
  then have "of_nat n = i - b" unfolding eq .
  then show "i = b + of_nat n" by simp
next
  assume n: "n < 65536" and "i = b + of_nat n"
  then have "i - b = of_nat n" by simp
  with n show "unat (i - b) = n" by (simp add: unat_of_nat)
qed

lemma convert_events_snoc:
  "convert_events cw ch i (Suc n) =
     convert_events cw ch i n
     @ [Vdp_adv_select_bitmap (i + of_nat n), Vdp_adv_bitmap_from_buffer cw ch RGBA2222_format]"
  by (simp add: convert_events_def)

lemma select_convert_buffers:
  "buffers (vdp_exec (Vdp_adv_bitmap_from_buffer w h f) (vdp_exec (Vdp_adv_select_bitmap s) v))
     = buffers v"
  by (simp split: option.split)

lemma select_convert_bitmaps:
  "bitmaps (vdp_exec (Vdp_adv_bitmap_from_buffer w h RGBA2222_format)
              (vdp_exec (Vdp_adv_select_bitmap s) v)) j =
     (if j = s \<and> conv_ok v w h s then Some (unat w, unat h) else bitmaps v j)"
  by (simp add: conv_ok_def split: option.split)

lemma buffers_convert_events:
  "buffers (vdp_run (convert_events cw ch i n) v) = buffers v"
proof (induction n)
  case 0
  show ?case by simp
next
  case (Suc n)
  show ?case
    unfolding convert_events_snoc vdp_run_append
    by (simp only: vdp_run_Cons vdp_run_Nil select_convert_buffers Suc.IH)
qed

lemma conv_ok_cong: "buffers v' = buffers v \<Longrightarrow> conv_ok v' cw ch j = conv_ok v cw ch j"
  by (simp add: conv_ok_def)

lemma bitmaps_convert_events:
  "n \<le> 65536 \<Longrightarrow>
   bitmaps (vdp_run (convert_events cw ch i n) v) j =
     (if unat (j - i) < n \<and> conv_ok v cw ch j then Some (unat cw, unat ch) else bitmaps v j)"
proof (induction n)
  case 0
  show ?case by simp
next
  case (Suc n)
  then have n: "n < 65536" and le: "n \<le> 65536" by simp_all
  let ?v = "vdp_run (convert_events cw ch i n) v"
  have iff: "unat (j - i) < Suc n \<longleftrightarrow> unat (j - i) < n \<or> j = i + of_nat n"
    using unat_sub_eq_iff [OF n, of j i] by auto
  have ok: "conv_ok ?v cw ch (i + of_nat n) = conv_ok v cw ch (i + of_nat n)"
    by (rule conv_ok_cong) (rule buffers_convert_events)
  have "bitmaps (vdp_run (convert_events cw ch i (Suc n)) v) j =
          (if j = i + of_nat n \<and> conv_ok v cw ch (i + of_nat n) then Some (unat cw, unat ch)
           else bitmaps ?v j)"
    unfolding convert_events_snoc vdp_run_append
    by (simp only: vdp_run_Cons vdp_run_Nil select_convert_bitmaps ok)
  also have "\<dots> = (if unat (j - i) < Suc n \<and> conv_ok v cw ch j then Some (unat cw, unat ch)
                    else bitmaps v j)"
    unfolding Suc.IH [OF le] iff by auto
  finally show ?case .
qed

lemma of_nat_u16_inj:
  "a < 65536 \<Longrightarrow> b < 65536 \<Longrightarrow> (of_nat a :: u16) = of_nat b \<Longrightarrow> a = b"
proof -
  assume a: "a < 65536" and b: "b < 65536" and eq: "(of_nat a :: u16) = of_nat b"
  from a have "a = unat (of_nat a :: u16)" by (simp add: unat_of_nat)
  also have "\<dots> = unat (of_nat b :: u16)" by (rule arg_cong [OF eq])
  also from b have "\<dots> = b" by (simp add: unat_of_nat)
  finally show "a = b" .
qed

lemma unat_sub_less_iff:
  "n \<le> 65536 \<Longrightarrow> unat ((j :: u16) - i) < n \<longleftrightarrow> (\<exists>k<n. j = i + of_nat k)"
proof
  assume "n \<le> 65536" and lt: "unat (j - i) < n"
  have "j = i + of_nat (unat (j - i))" by simp
  with lt show "\<exists>k<n. j = i + of_nat k" by blast
next
  assume n: "n \<le> 65536" and "\<exists>k<n. j = i + of_nat k"
  then obtain k where k: "k < n" and j: "j = i + of_nat k" by blast
  from k n have "k < 65536" by simp
  then have "unat (j - i) = k" unfolding j by (simp add: unat_of_nat)
  with k show "unat (j - i) < n" by simp
qed

lemma row_events_calls:
  "row_events f cw ch blockCount i bp r =
     row_calls (snd (chunk_state f bp (Suc r)) - snd (chunk_state f bp r)) cw ch blockCount
       (i + of_nat (r * unat blockCount)) (chunk_data f bp r)"
  by (simp add: row_events_def row_calls_def row_head_def chunk_data_def)

lemma buffers_row_head:
  "buffers (vdp_run (row_head got cw blockCount i bytes) v) j =
     (if unat (j - i) < unat blockCount
      then Some (split_column (unat cw) (unat blockCount) bytes (unat (j - i)))
      else if j = chunkStoreID then Some bytes else buffers v j)"
  by (simp add: row_head_def)

lemma bitmaps_row_head:
  "bitmaps (vdp_run (row_head got cw blockCount i bytes) v) j =
     (if unat (j - i) < unat blockCount then None
      else if j = chunkStoreID then None else bitmaps v j)"
  by (simp add: row_head_def)

lemma row_calls_head:
  "row_calls got cw ch blockCount i bytes =
     row_head got cw blockCount i bytes @ convert_events cw ch i (unat blockCount)"
  by (simp add: row_calls_def)

lemma unat_u16_le: "unat (x :: u16) \<le> 65536"
  using unsigned_less [of x, where 'a = nat] by simp

lemma buffers_row_calls:
  "buffers (vdp_run (row_calls got cw ch blockCount i bytes) v) j =
     (if unat (j - i) < unat blockCount
      then Some (split_column (unat cw) (unat blockCount) bytes (unat (j - i)))
      else if j = chunkStoreID then Some bytes else buffers v j)"
  unfolding row_calls_head vdp_run_append buffers_convert_events
  by (rule buffers_row_head)

lemma bitmaps_row_calls:
  "bitmaps (vdp_run (row_calls got cw ch blockCount i bytes) v) j =
     (if unat (j - i) < unat blockCount
      then (if unat cw * unat ch
                 \<le> length (split_column (unat cw) (unat blockCount) bytes (unat (j - i)))
            then Some (unat cw, unat ch) else None)
      else if j = chunkStoreID then None else bitmaps v j)"
  unfolding row_calls_head vdp_run_append bitmaps_convert_events [OF unat_u16_le]
  by (simp add: bitmaps_row_head conv_ok_def buffers_row_head)

lemma chunk_data_Suc:
  "chunk_data f bp (Suc r) = chunk_data f (fread_step f (unat chunkSize) bp) r"
  by (simp add: chunk_data_def chunk_state_Suc [of f bp])

lemma loader_events_Suc_calls:
  "loader_events f cw ch (Suc m) blockCount i bp =
     row_calls (snd (fread_step f (unat chunkSize) bp) - snd bp) cw ch blockCount i
       (chunk_data f bp 0)
     @ loader_events f cw ch m blockCount (i + of_nat (unat blockCount))
         (fread_step f (unat chunkSize) bp)"
  unfolding loader_events_Suc row_events_calls
  by (simp add: chunk_state_Suc [of f bp 0])

lemma tile_column_first:
  "k < unat blockCount \<Longrightarrow>
   tile_column f bp cw blockCount k =
     split_column (unat cw) (unat blockCount) (chunk_data f bp 0) k"
  by (simp add: tile_column_def)

lemma tile_column_later:
  assumes "0 < unat blockCount"
  shows "tile_column f bp cw blockCount (unat blockCount + k) =
     tile_column f (fread_step f (unat chunkSize) bp) cw blockCount k"
proof -
  from assms have ne: "unat blockCount \<noteq> 0"
    by (rule less_imp_neq [symmetric])
  have "(unat blockCount + k) div unat blockCount = Suc (k div unat blockCount)"
    using div_add_self1 [OF ne, of k] by (simp only: Suc_eq_plus1)
  moreover have "(unat blockCount + k) mod unat blockCount = k mod unat blockCount"
    by (rule mod_add_self1)
  ultimately show ?thesis
    by (simp only: tile_column_def chunk_data_Suc)
qed

lemma vdp_run_loader_events:
  assumes "m * unat blockCount \<le> 65536"
    and "\<forall>k<m * unat blockCount. i + of_nat k \<noteq> chunkStoreID"
  shows "(\<forall>k<m * unat blockCount.
            buffers (vdp_run (loader_events f cw ch m blockCount i bp) v) (i + of_nat k) =
              Some (tile_column f bp cw blockCount k)
            \<and> bitmaps (vdp_run (loader_events f cw ch m blockCount i bp) v) (i + of_nat k) =
                (if unat cw * unat ch \<le> length (tile_column f bp cw blockCount k)
                 then Some (unat cw, unat ch) else None))
       \<and> (\<forall>j. (\<forall>k<m * unat blockCount. j \<noteq> i + of_nat k) \<and> j \<noteq> chunkStoreID \<longrightarrow>
            buffers (vdp_run (loader_events f cw ch m blockCount i bp) v) j = buffers v j
            \<and> bitmaps (vdp_run (loader_events f cw ch m blockCount i bp) v) j = bitmaps v j)"
  using assms
proof (induction m arbitrary: i bp v)
  case 0
  show ?case by simp
next
  case (Suc m)
  let ?n = "unat blockCount"
  let ?bp' = "fread_step f (unat chunkSize) bp"
  let ?i' = "i + of_nat ?n"
  let ?row = "row_calls (snd ?bp' - snd bp) cw ch blockCount i (chunk_data f bp 0)"
  let ?v1 = "vdp_run ?row v"
  let ?fin = "vdp_run (loader_events f cw ch m blockCount ?i' ?bp') ?v1"
  have fin: "vdp_run (loader_events f cw ch (Suc m) blockCount i bp) v = ?fin"
    by (simp only: loader_events_Suc_calls vdp_run_append)
  have bound: "?n + m * ?n \<le> 65536"
    using Suc.prems(1) by simp
  then have bound': "m * ?n \<le> 65536" and n_le: "?n \<le> 65536"
    by simp_all
  have later_ne: "?i' + of_nat k \<noteq> chunkStoreID" if "k < m * ?n" for k
  proof -
    from that have "?n + k < Suc m * ?n" by simp
    from Suc.prems(2) [rule_format, OF this] show ?thesis by (simp add: add.assoc)
  qed
  from later_ne have later: "\<forall>k<m * ?n. ?i' + of_nat k \<noteq> chunkStoreID"
    by blast
  note IH = Suc.IH [of ?i' ?bp' ?v1, OF bound' later]
  have first_kept: "buffers ?fin (i + of_nat k) = buffers ?v1 (i + of_nat k)
                    \<and> bitmaps ?fin (i + of_nat k) = bitmaps ?v1 (i + of_nat k)"
    if k: "k < ?n" for k
  proof -
    have "i + of_nat k \<noteq> ?i' + of_nat k'" if k': "k' < m * ?n" for k'
    proof
      assume "i + of_nat k = ?i' + of_nat k'"
      then have "(of_nat k :: u16) = of_nat (?n + k')"
        by (simp add: add.assoc)
      moreover have "k < 65536" "?n + k' < 65536"
        using k k' bound by simp_all
      ultimately have "k = ?n + k'"
        by (rule of_nat_u16_inj [rotated 2])
      with k show False by simp
    qed
    moreover have "i + of_nat k \<noteq> chunkStoreID"
      using Suc.prems(2) [rule_format, of k] k by simp
    ultimately show ?thesis
      using IH by blast
  qed
  have first_v1: "unat (i + of_nat k - i) = k" if "k < ?n" for k
    using that n_le by (simp add: unat_of_nat)
  show ?case
    unfolding fin
  proof (intro conjI allI impI)
    fix k
    assume k: "k < Suc m * ?n"
    show "buffers ?fin (i + of_nat k) = Some (tile_column f bp cw blockCount k)"
    proof (cases "k < ?n")
      case True
      with first_kept [OF True] first_v1 [OF True] show ?thesis
        by (simp add: buffers_row_calls tile_column_first)
    next
      case False
      then obtain k' where k': "k = ?n + k'" "k' < m * ?n"
        using k by (metis add_diff_inverse_nat mult_Suc nat_add_left_cancel_less)
      then have "0 < ?n" by (cases "?n = 0") simp_all
      with k' IH show ?thesis
        by (simp add: tile_column_later add.assoc)
    qed
    show "bitmaps ?fin (i + of_nat k) =
            (if unat cw * unat ch \<le> length (tile_column f bp cw blockCount k)
             then Some (unat cw, unat ch) else None)"
    proof (cases "k < ?n")
      case True
      with first_kept [OF True] first_v1 [OF True] show ?thesis
        by (simp add: bitmaps_row_calls tile_column_first)
    next
      case False
      then obtain k' where k': "k = ?n + k'" "k' < m * ?n"
        using k by (metis add_diff_inverse_nat mult_Suc nat_add_left_cancel_less)
      then have "0 < ?n" by (cases "?n = 0") simp_all
      with k' IH show ?thesis
        by (simp add: tile_column_later add.assoc)
    qed
  next
    fix j
    assume j: "(\<forall>k<Suc m * ?n. j \<noteq> i + of_nat k) \<and> j \<noteq> chunkStoreID"
    have "j \<noteq> ?i' + of_nat k'" if "k' < m * ?n" for k'
    proof -
      from that have "?n + k' < Suc m * ?n" by simp
      with j have "j \<noteq> i + of_nat (?n + k')" by blast
      then show ?thesis by (simp add: add.assoc)
    qed
    with IH j have kept: "buffers ?fin j = buffers ?v1 j \<and> bitmaps ?fin j = bitmaps ?v1 j"
      by blast
    have "\<not> unat (j - i) < ?n"
    proof
      assume "unat (j - i) < ?n"
      then obtain k where "k < ?n" "j = i + of_nat k"
        using unat_sub_less_iff [OF n_le, of j i] by blast
      moreover from this have "k < Suc m * ?n" by simp
      ultimately show False using j by blast
    qed
    with kept j show "buffers ?fin j = buffers v j"
      by (simp add: buffers_row_calls)
    from \<open>\<not> unat (j - i) < ?n\<close> kept j show "bitmaps ?fin j = bitmaps v j"
      by (simp add: bitmaps_row_calls)
  qed
qed

lemma chunk_state_pos:
  "pos + r * 2048 \<le> length bytes \<Longrightarrow>
   snd (chunk_state (Some bytes) (buf, pos) r) = pos + r * 2048"
proof (induction r)
  case 0
  show ?case by simp
next
  case (Suc r)
  then have "snd (chunk_state (Some bytes) (buf, pos) r) = pos + r * 2048"
    and "pos + r * 2048 + 2048 \<le> length bytes"
    by simp_all
  then show ?case
    by (simp add: chunk_state_step fread_step_def fread_bytes_def Let_def chunkSize_def)
qed

lemma chunk_data_file:
  assumes "pos + Suc r * 2048 \<le> length bytes"
  shows "chunk_data (Some bytes) (buf, pos) r = take 2048 (drop (pos + r * 2048) bytes)"
proof -
  from assms have le: "pos + r * 2048 \<le> length bytes" and
    full: "pos + r * 2048 + 2048 \<le> length bytes"
    by simp_all
  have len: "length (take 2048 (drop (pos + r * 2048) bytes)) = 2048"
    using full by simp
  show ?thesis
    unfolding chunk_data_def chunk_state_step fread_step_def fread_bytes_def Let_def
      chunk_state_pos [OF le]
    using len by (simp add: chunkSize_def)
qed

lemma take_drop_take:
  "a + w \<le> m \<Longrightarrow> take w (drop a (take m xs)) = take w (drop a xs)"
  by (simp add: drop_take min_def)

lemma split_column_exact:
  assumes len: "length bytes = w * n * h" and w: "0 < w" and c: "c < n"
  shows "split_column w n bytes c =
           concat (map (\<lambda>y. take w (drop ((y * n + c) * w) bytes)) [0..<h])"
proof -
  from w c have wn: "0 < w * n" by simp
  then have "length bytes div (w * n) = h"
    using len by simp
  moreover have "take w (drop ((h * n + c) * w) bytes) = []"
    using len by (simp add: algebra_simps)
  ultimately show ?thesis
    by (simp add: split_column_def)
qed

lemma length_concat_const:
  "(\<And>x. x \<in> set xs \<Longrightarrow> length (f x) = k) \<Longrightarrow> length (concat (map f xs)) = length xs * k"
  by (induction xs) simp_all

lemma piece_inside:
  fixes y h c n w :: nat
  assumes "y < h" and "c < n"
  shows "(y * n + c) * w + w \<le> w * n * h"
proof -
  from assms have "Suc y \<le> h" and "c + 1 \<le> n" by simp_all
  then have "Suc y * n \<le> h * n" by (intro mult_le_mono1)
  with \<open>c + 1 \<le> n\<close> have "y * n + c + 1 \<le> h * n"
    by simp
  then have "(y * n + c + 1) * w \<le> h * n * w"
    by (rule mult_le_mono1)
  then show ?thesis
    by (simp add: algebra_simps)
qed

lemma split_column_length:
  assumes len: "length bytes = w * n * h" and w: "0 < w" and c: "c < n"
  shows "length (split_column w n bytes c) = w * h"
proof -
  have "length (take w (drop ((y * n + c) * w) bytes)) = w" if "y \<in> set [0..<h]" for y
    using piece_inside [of y h c n w] that c len by simp
  then have "length (concat (map (\<lambda>y. take w (drop ((y * n + c) * w) bytes)) [0..<h])) =
               length [0..<h] * w"
    by (rule length_concat_const)
  then show ?thesis
    unfolding split_column_exact [OF assms] by (simp add: mult.commute)
qed

lemma tile_is_cell:
  assumes geo: "cw * n * ch = 2048" and cw: "0 < cw" and c: "c < n"
    and enough: "Suc r * 2048 \<le> length bytes"
  shows "split_column cw n (take 2048 (drop (r * 2048) bytes)) c = cell_pixels bytes cw ch n r c"
proof -
  let ?d = "take 2048 (drop (r * 2048) bytes)"
  have len: "length ?d = cw * n * ch"
    using enough geo by simp
  have piece: "take cw (drop ((y * n + c) * cw) ?d) =
                 take cw (drop ((r * ch + y) * (n * cw) + c * cw) bytes)"
    if "y \<in> set [0..<ch]" for y
  proof -
    from that have y: "y < ch" by simp
    have inside: "(y * n + c) * cw + cw \<le> 2048"
      using piece_inside [OF y c, of cw] geo by simp
    have "take cw (drop ((y * n + c) * cw) ?d) =
            take cw (drop ((y * n + c) * cw) (drop (r * 2048) bytes))"
      by (rule take_drop_take [OF inside])
    also have "\<dots> = take cw (drop ((y * n + c) * cw + r * 2048) bytes)"
      by simp
    also have "(y * n + c) * cw + r * 2048 = (r * ch + y) * (n * cw) + c * cw"
      unfolding geo [symmetric] by (simp add: algebra_simps)
    finally show ?thesis .
  qed
  have "concat (map (\<lambda>y. take cw (drop ((y * n + c) * cw) ?d)) [0..<ch]) =
          concat (map (\<lambda>y. take cw (drop ((r * ch + y) * (n * cw) + c * cw) bytes)) [0..<ch])"
    by (intro arg_cong [where f = concat] map_cong refl piece)
  then show ?thesis
    unfolding split_column_exact [OF len cw c] cell_pixels_def .
qed

lemma chunk_store_no_bitmap:
  assumes "m * unat blockCount \<le> 65536"
    and "\<forall>k<m * unat blockCount. i + of_nat k \<noteq> chunkStoreID"
    and "bitmaps v chunkStoreID = None"
  shows "bitmaps (vdp_run (loader_events f cw ch m blockCount i bp) v) chunkStoreID = None"
  using assms
proof (induction m arbitrary: i bp v)
  case 0
  then show ?case by simp
next
  case (Suc m)
  let ?n = "unat blockCount"
  let ?bp' = "fread_step f (unat chunkSize) bp"
  let ?row = "row_calls (snd ?bp' - snd bp) cw ch blockCount i (chunk_data f bp 0)"
  have bound: "m * ?n \<le> 65536" and n_le: "?n \<le> 65536"
    using Suc.prems(1) by simp_all
  have later_ne: "i + of_nat ?n + of_nat k \<noteq> chunkStoreID" if "k < m * ?n" for k
  proof -
    from that have "?n + k < Suc m * ?n" by simp
    from Suc.prems(2) [rule_format, OF this] show ?thesis by (simp add: add.assoc)
  qed
  have "\<not> unat (chunkStoreID - i) < ?n"
  proof
    assume "unat (chunkStoreID - i) < ?n"
    then obtain k where "k < ?n" "chunkStoreID = i + of_nat k"
      using unat_sub_less_iff [OF n_le, of chunkStoreID i] by blast
    moreover from this have "k < Suc m * ?n" by simp
    ultimately show False using Suc.prems(2) [rule_format, of k] by simp
  qed
  then have "bitmaps (vdp_run ?row v) chunkStoreID = None"
    by (simp add: bitmaps_row_calls)
  moreover from later_ne have "\<forall>k<m * ?n. i + of_nat ?n + of_nat k \<noteq> chunkStoreID"
    by blast
  ultimately have "bitmaps (vdp_run (loader_events f cw ch m blockCount (i + of_nat ?n) ?bp')
                     (vdp_run ?row v)) chunkStoreID = None"
    by (intro Suc.IH bound)
  then
  show ?case
    by (simp only: loader_events_Suc_calls vdp_run_append)
qed

lemma inj_on_tile_ids:
  "n \<le> 65536 \<Longrightarrow> inj_on (\<lambda>k. (i :: u16) + of_nat k) {0..<n}"
  by (rule inj_onI) (auto dest: of_nat_u16_inj [rotated 2])

lemma geo_positive:
  fixes a b c :: nat
  assumes "a * b * c = 2048"
  shows "0 < a" and "0 < b" and "0 < c"
proof -
  show "0 < a"
  proof (rule ccontr)
    assume "\<not> 0 < a"
    then have "a * b * c = 0" by simp
    with assms show False by simp
  qed
  show "0 < b"
  proof (rule ccontr)
    assume "\<not> 0 < b"
    then have "a * b * c = 0" by simp
    with assms show False by simp
  qed
  show "0 < c"
  proof (rule ccontr)
    assume "\<not> 0 < c"
    then have "a * b * c = 0" by simp
    with assms show False by simp
  qed
qed

lemma row_major_index:
  fixes r c n m :: nat
  assumes "r < m" and "c < n"
  shows "r * n + c < m * n" and "(r * n + c) div n = r" and "(r * n + c) mod n = c"
proof -
  have "r * n + c < r * n + n" using assms by simp
  also have "\<dots> = Suc r * n" by simp
  also have "\<dots> \<le> m * n" using assms by (intro mult_le_mono1) simp
  finally show "r * n + c < m * n" .
  show "(r * n + c) div n = r" "(r * n + c) mod n = c"
    using assms by simp_all
qed

lemma chunk_data_full:
  assumes "r < m" and "m * 2048 \<le> length bytes"
  shows "chunk_data (Some bytes) (buf, 0) r = take 2048 (drop (r * 2048) bytes)"
    and "length (chunk_data (Some bytes) (buf, 0) r) = 2048"
proof -
  from assms(1) have "Suc r * 2048 \<le> m * 2048" by simp
  with assms(2) have enough: "0 + Suc r * 2048 \<le> length bytes" by simp
  from chunk_data_file [OF enough, of buf]
  show eq: "chunk_data (Some bytes) (buf, 0) r = take 2048 (drop (r * 2048) bytes)"
    by simp
  from enough show "length (chunk_data (Some bytes) (buf, 0) r) = 2048"
    unfolding eq by simp
qed

lemma tile_column_cell:
  assumes geo: "unat cw * unat blockCount * unat ch = 2048"
    and r: "r < m" and c: "c < unat blockCount"
    and enough: "m * 2048 \<le> length bytes"
  shows "tile_column (Some bytes) (buf, 0) cw blockCount (r * unat blockCount + c) =
           cell_pixels bytes (unat cw) (unat ch) (unat blockCount) r c"
proof -
  from r have "Suc r * 2048 \<le> m * 2048" by simp
  with enough have full: "Suc r * 2048 \<le> length bytes" by simp
  have "tile_column (Some bytes) (buf, 0) cw blockCount (r * unat blockCount + c) =
          split_column (unat cw) (unat blockCount) (take 2048 (drop (r * 2048) bytes)) c"
    by (simp only: tile_column_def row_major_index(2,3) [OF r c]
          chunk_data_full(1) [OF r enough])
  also have "\<dots> = cell_pixels bytes (unat cw) (unat ch) (unat blockCount) r c"
    by (rule tile_is_cell [OF geo geo_positive(1) [OF geo] c full])
  finally show ?thesis .
qed

lemma tile_column_length:
  assumes geo: "unat cw * unat blockCount * unat ch = 2048"
    and k: "k < m * unat blockCount"
    and enough: "m * 2048 \<le> length bytes"
  shows "length (tile_column (Some bytes) (buf, 0) cw blockCount k) = unat cw * unat ch"
proof -
  let ?n = "unat blockCount"
  have n: "0 < ?n" by (rule geo_positive(2) [OF geo])
  with k have r: "k div ?n < m"
    by (simp add: less_mult_imp_div_less)
  have "length (chunk_data (Some bytes) (buf, 0) (k div ?n)) = unat cw * ?n * unat ch"
    unfolding chunk_data_full(2) [OF r enough] geo ..
  from split_column_length [OF this geo_positive(1) [OF geo] mod_less_divisor [OF n]]
  show ?thesis
    by (simp only: tile_column_def)
qed

lemma counts_bound:
  "unat rowCount \<le> 255 \<Longrightarrow> unat blockCount \<le> 255 \<Longrightarrow>
   unat rowCount * unat blockCount \<le> 65536"
proof -
  assume "unat rowCount \<le> 255" "unat blockCount \<le> 255"
  then have "unat rowCount * unat blockCount \<le> 255 * 255"
    by (rule mult_le_mono)
  then show ?thesis by simp
qed

lemma vdp_empty_simps [simp]:
  "buffers vdp_empty = (\<lambda>i. None)" "bitmaps vdp_empty = (\<lambda>i. None)" "selected vdp_empty = 0"
  by (simp_all add: vdp_empty_def)

lemma loader_vdp_tile:
  assumes bound: "m * unat blockCount \<le> 65536"
    and geo: "unat cw * unat blockCount * unat ch = 2048"
    and enough: "m * 2048 \<le> length bytes"
    and apart: "\<forall>k<m * unat blockCount. i + of_nat k \<noteq> chunkStoreID"
    and k: "k < m * unat blockCount"
  shows "buffers (vdp_run (loader_events (Some bytes) cw ch m blockCount i (buf, 0)) v)
           (i + of_nat k) = Some (tile_column (Some bytes) (buf, 0) cw blockCount k)"
    and "bitmaps (vdp_run (loader_events (Some bytes) cw ch m blockCount i (buf, 0)) v)
           (i + of_nat k) = Some (unat cw, unat ch)"
proof -
  note run = vdp_run_loader_events [of m blockCount i "Some bytes" cw ch "(buf, 0)" v,
               OF bound apart]
  from run k show "buffers (vdp_run (loader_events (Some bytes) cw ch m blockCount i (buf, 0)) v)
           (i + of_nat k) = Some (tile_column (Some bytes) (buf, 0) cw blockCount k)"
    by blast
  from run k have "bitmaps (vdp_run (loader_events (Some bytes) cw ch m blockCount i (buf, 0)) v)
           (i + of_nat k) =
        (if unat cw * unat ch \<le> length (tile_column (Some bytes) (buf, 0) cw blockCount k)
         then Some (unat cw, unat ch) else None)"
    by blast
  then show "bitmaps (vdp_run (loader_events (Some bytes) cw ch m blockCount i (buf, 0)) v)
           (i + of_nat k) = Some (unat cw, unat ch)"
    by (simp only: tile_column_length [OF geo k enough] le_refl if_True)
qed

lemma loader_vdp_pixels:
  assumes bound: "m * unat blockCount \<le> 65536"
    and geo: "unat cw * unat blockCount * unat ch = 2048"
    and enough: "m * 2048 \<le> length bytes"
    and apart: "\<forall>k<m * unat blockCount. i + of_nat k \<noteq> chunkStoreID"
    and r: "r < m" and c: "c < unat blockCount"
  shows "bitmap_pixels (vdp_run (loader_events (Some bytes) cw ch m blockCount i (buf, 0)) v)
           (i + of_nat (r * unat blockCount + c)) =
         Some (cell_pixels bytes (unat cw) (unat ch) (unat blockCount) r c)"
proof -
  let ?k = "r * unat blockCount + c"
  have k: "?k < m * unat blockCount"
    by (rule row_major_index(1) [OF r c])
  have len: "length (cell_pixels bytes (unat cw) (unat ch) (unat blockCount) r c) =
               unat cw * unat ch"
    using tile_column_length [OF geo k enough, of buf]
    by (simp only: tile_column_cell [OF geo r c enough])
  define j where "j = i + of_nat ?k"
  define fin where "fin = vdp_run (loader_events (Some bytes) cw ch m blockCount i (buf, 0)) v"
  have b: "buffers fin j =
             Some (cell_pixels bytes (unat cw) (unat ch) (unat blockCount) r c)"
    unfolding j_def fin_def loader_vdp_tile(1) [OF bound geo enough apart k]
      tile_column_cell [OF geo r c enough] ..
  have m: "bitmaps fin j = Some (unat cw, unat ch)"
    unfolding j_def fin_def by (rule loader_vdp_tile(2) [OF bound geo enough apart k])
  have "bitmap_pixels fin j =
          Some (cell_pixels bytes (unat cw) (unat ch) (unat blockCount) r c)"
    using len by (simp add: bitmap_pixels_def b m)
  then show ?thesis
    unfolding j_def fin_def .
qed

lemma loader_vdp_dom:
  assumes bound: "m * unat blockCount \<le> 65536"
    and geo: "unat cw * unat blockCount * unat ch = 2048"
    and enough: "m * 2048 \<le> length bytes"
    and apart: "\<forall>k<m * unat blockCount. i + of_nat k \<noteq> chunkStoreID"
  shows "dom (bitmaps (vdp_run (loader_events (Some bytes) cw ch m blockCount i (buf, 0))
                         vdp_empty)) =
           (\<lambda>k. i + of_nat k) ` {0..<m * unat blockCount}"
proof (intro set_eqI iffI)
  let ?fin = "vdp_run (loader_events (Some bytes) cw ch m blockCount i (buf, 0)) vdp_empty"
  fix j
  assume "j \<in> dom (bitmaps ?fin)"
  then have some: "bitmaps ?fin j \<noteq> None" by blast
  have none: "bitmaps ?fin chunkStoreID = None"
    by (rule chunk_store_no_bitmap [OF bound apart]) simp
  show "j \<in> (\<lambda>k. i + of_nat k) ` {0..<m * unat blockCount}"
  proof (rule ccontr)
    assume "j \<notin> (\<lambda>k. i + of_nat k) ` {0..<m * unat blockCount}"
    then have out: "\<forall>k<m * unat blockCount. j \<noteq> i + of_nat k" by auto
    from some none have "j \<noteq> chunkStoreID" by auto
    with vdp_run_loader_events [of m blockCount i "Some bytes" cw ch "(buf, 0)" vdp_empty,
           OF bound apart] out
    have "bitmaps ?fin j = bitmaps vdp_empty j" by blast
    with some show False by simp
  qed
next
  let ?fin = "vdp_run (loader_events (Some bytes) cw ch m blockCount i (buf, 0)) vdp_empty"
  fix j
  assume "j \<in> (\<lambda>k. i + of_nat k) ` {0..<m * unat blockCount}"
  then obtain k where k: "k < m * unat blockCount" and j: "j = i + of_nat k" by auto
  show "j \<in> dom (bitmaps ?fin)"
    unfolding j using loader_vdp_tile(2) [OF bound geo enough apart k, of buf vdp_empty]
    by (rule domI)
qed

lemma load_vdp_run:
  assumes "loader_terminates rowCount blockCount"
  shows "\<exists>st'. load_tiles_from_file fs fileName i cw ch rowCount blockCount st = Some st'
     \<and> vdp_run (drop (length (trace st)) (trace st')) v =
         vdp_run (loader_events (fs fileName) cw ch (unat rowCount) blockCount i (readChunk st, 0))
           v"
  by (simp add: load_tiles_from_file_eq [OF assms])

lemma set_split_column: "set (split_column w n bytes c) \<subseteq> set bytes"
  by (auto simp: split_column_def dest!: in_set_takeD in_set_dropD)

lemma take_drop_append:
  "k + w \<le> length xs \<Longrightarrow> take w (drop k (xs @ ys)) = take w (drop k xs)"
  by simp

lemma striped_second_chunk:
  "chunk_data (Some striped_bytes) (buf, 0) 1 = replicate 2048 1"
proof -
  have "(1 :: nat) < 2" and "(2 :: nat) * 2048 \<le> length striped_bytes"
    by (simp_all add: striped_bytes_def)
  from chunk_data_full(1) [OF this, of buf] show ?thesis
    by (simp add: striped_bytes_def)
qed

lemma striped_tile_4:
  "tile_column (Some striped_bytes) (buf, 0) 16 4 4 = split_column 16 4 (replicate 2048 1) 0"
  using striped_second_chunk [of buf] by (simp add: tile_column_def)

lemma striped_tile_4_length:
  "length (split_column 16 4 (replicate 2048 1) 0) = 512"
  using split_column_length [of "replicate 2048 (1 :: byte)" 16 4 32 0] by simp

lemma striped_cell_1_0: "set (cell_pixels striped_bytes 16 16 4 1 0) \<subseteq> {0}"
proof -
  have "take 16 (drop ((1 * 16 + y) * (4 * 16) + 0 * 16) striped_bytes) =
          take 16 (drop ((1 * 16 + y) * (4 * 16) + 0 * 16) (replicate 2048 0))"
    if "y < 16" for y :: nat
    unfolding striped_bytes_def using that by (intro take_drop_append) simp
  then show ?thesis
    by (auto simp: cell_pixels_def dest!: in_set_takeD in_set_dropD)
qed

lemma chunk_state_full:
  assumes "r < m" and "m * 2048 \<le> length bytes"
  shows "snd (chunk_state (Some bytes) (buf, 0) (Suc r))
           - snd (chunk_state (Some bytes) (buf, 0) r) = 2048"
proof -
  from assms have "0 + Suc r * 2048 \<le> length bytes" "0 + r * 2048 \<le> length bytes"
    by simp_all
  then show ?thesis
    by (simp only: chunk_state_pos) simp
qed

lemma row_events_full:
  assumes "r < m" and "m * 2048 \<le> length bytes"
  shows "row_events (Some bytes) cw ch blockCount i (buf, 0) r =
     [Vdp_adv_clear_buffer chunkStoreID,
      Fread 1 (unat chunkSize) (unat chunkSize),
      Vdp_adv_write_block_data chunkStoreID chunkSize
        (take (unat chunkSize) (drop (r * unat chunkSize) bytes)),
      Vdp_adv_split_by_width_multiple_from chunkStoreID cw blockCount
        (i + of_nat (r * unat blockCount))]
     @ convert_events cw ch (i + of_nat (r * unat blockCount)) (unat blockCount)"
  using chunk_state_full [OF assms, of buf] chunk_data_full(1) [OF assms, of buf]
  unfolding row_events_def chunk_data_def
  by (simp add: chunkSize_def)

section \<open>The claims\<close>

text \<open>
  C1, as the claim states it, fails.  The loader always reads chunks of \<open>chunkSize =
  2048\<close> bytes, whatever the cell size and the number of columns are.  For a tile map of
  4 columns of 16 by 16 cells a row of cells is 1024 bytes, so the second chunk is the
  third row of cells: bitmap 4 does not get the pixels of the cell at row 1, column 0,
  although the file has \<open>rowCount * chunkSize\<close> bytes.
\<close>

theorem loader_misplaces_second_row:
  "2 * unat chunkSize \<le> length striped_bytes
   \<and> load_tiles_from_file striped_disk fname 0 16 16 2 4 state_init \<noteq> None
   \<and> bitmap_pixels
        (vdp_run (trace (the (load_tiles_from_file striped_disk fname 0 16 16 2 4 state_init)))
           vdp_empty) 4
       \<noteq> Some (cell_pixels striped_bytes 16 16 4 1 0)"
proof -
  let ?f = "Some striped_bytes" and ?bp = "(readChunk state_init, 0 :: nat)"
  let ?fin = "vdp_run (loader_events ?f 16 16 2 4 0 ?bp) vdp_empty"
  have returns: "loader_terminates 2 4"
    by (simp add: loader_terminates_def)
  from load_vdp_run [OF returns, of striped_disk fname 0 16 16 state_init vdp_empty]
  obtain st' where
    ret: "load_tiles_from_file striped_disk fname 0 16 16 2 4 state_init = Some st'"
    and run: "vdp_run (trace st') vdp_empty = ?fin"
    by (auto simp: striped_disk_def one_file_def state_init_def)
  have apart: "\<forall>k<2 * unat (4 :: u16). (0 :: u16) + of_nat k \<noteq> chunkStoreID"
  proof (intro allI impI)
    fix k :: nat
    assume "k < 2 * unat (4 :: u16)"
    then have k: "k < 8" by simp
    then have "unat (of_nat k :: u16) = k" by (simp add: unat_of_nat)
    with k have "(of_nat k :: u16) \<noteq> 5000" by auto
    then show "(0 :: u16) + of_nat k \<noteq> chunkStoreID" by (simp add: chunkStoreID_def)
  qed
  have bound: "2 * unat (4 :: u16) \<le> 65536" by simp
  have k: "4 < 2 * unat (4 :: u16)" by simp
  from vdp_run_loader_events [OF bound apart, of ?f 16 16 ?bp vdp_empty] k
  have "buffers ?fin (0 + of_nat 4) = Some (tile_column ?f ?bp 16 4 4)"
    and "bitmaps ?fin (0 + of_nat 4) =
           (if unat (16 :: u16) * unat (16 :: u16) \<le> length (tile_column ?f ?bp 16 4 4)
            then Some (unat (16 :: u16), unat (16 :: u16)) else None)"
    by blast+
  then have pixels: "bitmap_pixels ?fin 4 =
                       Some (take 256 (split_column 16 4 (replicate 2048 1) 0))"
    by (simp add: bitmap_pixels_def striped_tile_4 striped_tile_4_length)
  have "take 256 (split_column 16 4 (replicate 2048 1) 0) \<noteq> []"
    using striped_tile_4_length by auto
  then have "hd (take 256 (split_column 16 4 (replicate 2048 (1 :: byte)) 0))
               \<in> set (take 256 (split_column 16 4 (replicate 2048 (1 :: byte)) 0))"
    by (rule hd_in_set)
  then obtain x where x: "x \<in> set (take 256 (split_column 16 4 (replicate 2048 (1 :: byte)) 0))"
    ..
  then have "x \<in> set (replicate 2048 (1 :: byte))"
    using set_split_column [of 16 4 "replicate 2048 (1 :: byte)" 0]
    by (auto dest: in_set_takeD)
  then have "x = 1" by simp
  with x striped_cell_1_0 have
    "take 256 (split_column 16 4 (replicate 2048 1) 0) \<noteq> cell_pixels striped_bytes 16 16 4 1 0"
    by auto
  with pixels ret run show ?thesis
    by (simp add: striped_bytes_def chunkSize_def)
qed

text \<open>
  C1, amended.  When \<open>rowCount \<le> 255\<close> and \<open>blockCount \<le> 255\<close>, a row of cells is
  exactly one chunk (\<open>cw * blockCount * ch = chunkSize\<close>), the file has at least
  \<open>rowCount * chunkSize\<close> bytes and \<open>chunkStoreID\<close> is none of the IDs
  \<open>startBitmapID + k\<close> for \<open>k < rowCount * blockCount\<close>, then the loader returns, and
  on a VDP that had no bitmap its calls leave exactly the bitmaps of these IDs, which are
  \<open>rowCount * blockCount\<close> different IDs, and bitmap
  \<open>startBitmapID + (r * blockCount + c)\<close> has the pixels of the source cell at row
  \<open>r\<close>, column \<open>c\<close>.
\<close>

theorem loader_populates_bitmaps:
  assumes "unat rowCount \<le> 255" and "unat blockCount \<le> 255"
    and "unat cw * unat blockCount * unat ch = unat chunkSize"
    and "fs fileName = Some bytes"
    and "unat rowCount * unat chunkSize \<le> length bytes"
    and "\<forall>k<unat rowCount * unat blockCount. startBitmapID + of_nat k \<noteq> chunkStoreID"
  shows "\<exists>st'. load_tiles_from_file fs fileName startBitmapID cw ch rowCount blockCount st
              = Some st'
     \<and> (\<forall>r<unat rowCount. \<forall>c<unat blockCount.
          bitmap_pixels (vdp_run (drop (length (trace st)) (trace st')) vdp_empty)
            (startBitmapID + of_nat (r * unat blockCount + c)) =
          Some (cell_pixels bytes (unat cw) (unat ch) (unat blockCount) r c))
     \<and> dom (bitmaps (vdp_run (drop (length (trace st)) (trace st')) vdp_empty)) =
           (\<lambda>k. startBitmapID + of_nat k) ` {0..<unat rowCount * unat blockCount}
     \<and> card ((\<lambda>k. startBitmapID + of_nat k) ` {0..<unat rowCount * unat blockCount}) =
           unat rowCount * unat blockCount"
proof -
  let ?m = "unat rowCount" and ?n = "unat blockCount"
  have returns: "loader_terminates rowCount blockCount"
    using assms(1,2) by (simp add: loader_terminates_def)
  have bound: "?m * ?n \<le> 65536"
    using assms(1,2) by (rule counts_bound)
  have geo: "unat cw * ?n * unat ch = 2048"
    using assms(3) by (simp add: chunkSize_def)
  have enough: "?m * 2048 \<le> length bytes"
    using assms(5) by (simp add: chunkSize_def)
  note apart = assms(6)
  from load_vdp_run [OF returns, of fs fileName startBitmapID cw ch st vdp_empty]
  obtain st' where
    ret: "load_tiles_from_file fs fileName startBitmapID cw ch rowCount blockCount st = Some st'"
    and run: "vdp_run (drop (length (trace st)) (trace st')) vdp_empty =
         vdp_run (loader_events (Some bytes) cw ch ?m blockCount startBitmapID (readChunk st, 0))
           vdp_empty"
    unfolding assms(4) by blast
  have pixels: "\<forall>r<?m. \<forall>c<?n.
          bitmap_pixels (vdp_run (drop (length (trace st)) (trace st')) vdp_empty)
            (startBitmapID + of_nat (r * ?n + c)) =
          Some (cell_pixels bytes (unat cw) (unat ch) ?n r c)"
    unfolding run
    by (intro allI impI loader_vdp_pixels [OF bound geo enough apart])
  have doms: "dom (bitmaps (vdp_run (drop (length (trace st)) (trace st')) vdp_empty)) =
           (\<lambda>k. startBitmapID + of_nat k) ` {0..<?m * ?n}"
    unfolding run by (rule loader_vdp_dom [OF bound geo enough apart])
  have "card ((\<lambda>k. startBitmapID + of_nat k) ` {0..<?m * ?n}) = card {0..<?m * ?n}"
    by (rule card_image [OF inj_on_tile_ids [OF bound]])
  then have cards: "card ((\<lambda>k. startBitmapID + of_nat k) ` {0..<?m * ?n}) = ?m * ?n"
    by simp
  from ret pixels doms cards show ?thesis by blast
qed

theorem loader_populates_bitmaps_witness:
  "unat (5 :: u16) \<le> 255 \<and> unat (8 :: u16) \<le> 255
   \<and> unat (16 :: u16) * unat (8 :: u16) * unat (16 :: u16) = unat chunkSize
   \<and> tile_disk fname = Some (replicate 10240 0)
   \<and> unat (5 :: u16) * unat chunkSize \<le> length (replicate 10240 (0 :: byte))
   \<and> (\<exists>st'. load_tiles_from_file tile_disk fname 0 16 16 5 8 state_init = Some st'
        \<and> (\<forall>r<5. \<forall>c<8.
              bitmap_pixels (vdp_run (trace st') vdp_empty) (of_nat (r * 8 + c)) =
                Some (cell_pixels (replicate 10240 0) 16 16 8 r c))
        \<and> dom (bitmaps (vdp_run (trace st') vdp_empty)) = of_nat ` {0..<40})"
proof -
  have h1: "unat (5 :: u16) \<le> 255" and h2: "unat (8 :: u16) \<le> 255" by simp_all
  have h3: "unat (16 :: u16) * unat (8 :: u16) * unat (16 :: u16) = unat chunkSize"
    by (simp add: chunkSize_def)
  have h4: "tile_disk fname = Some (replicate 10240 0)"
    by (simp add: tile_disk_def one_file_def)
  have h5: "unat (5 :: u16) * unat chunkSize \<le> length (replicate 10240 (0 :: byte))"
    by (simp add: chunkSize_def)
  have h6: "\<forall>k<unat (5 :: u16) * unat (8 :: u16). (0 :: u16) + of_nat k \<noteq> chunkStoreID"
  proof (intro allI impI)
    fix k :: nat
    assume "k < unat (5 :: u16) * unat (8 :: u16)"
    then have k: "k < 40" by simp
    then have "unat (of_nat k :: u16) = k" by (simp add: unat_of_nat)
    with k have "(of_nat k :: u16) \<noteq> 5000" by auto
    then show "(0 :: u16) + of_nat k \<noteq> chunkStoreID" by (simp add: chunkStoreID_def)
  qed
  have t: "trace state_init = []"
    by (simp add: state_init_def)
  from loader_populates_bitmaps
         [where rowCount = 5 and blockCount = 8 and cw = 16 and ch = 16 and fs = tile_disk
            and fileName = fname and bytes = "replicate 10240 0" and startBitmapID = 0
            and st = state_init, OF h1 h2 h3 h4 h5 h6]
  have "\<exists>st'. load_tiles_from_file tile_disk fname 0 16 16 5 8 state_init = Some st'
        \<and> (\<forall>r<5. \<forall>c<8.
              bitmap_pixels (vdp_run (trace st') vdp_empty) (of_nat (r * 8 + c)) =
                Some (cell_pixels (replicate 10240 0) 16 16 8 r c))
        \<and> dom (bitmaps (vdp_run (trace st') vdp_empty)) = of_nat ` {0..<40}"
    unfolding t by simp blast
  with h1 h2 h3 h4 h5 show ?thesis by blast
qed

text \<open>
  C2.  For every \<open>rows\<close>, \<open>columns\<close> and \<open>startBufferID\<close> the Grid Renderer adds to the
  trace exactly the calls of \<open>display_events\<close>: row after row and column after column,
  cell \<open>(r, c)\<close> selects bitmap \<open>startBufferID + (r * columns + c)\<close> (in 16-bit
  arithmetic, one more per cell) and plots it at \<open>(10 + 20 * c, 10 + 20 * r)\<close>; these are
  \<open>rows * columns\<close> plot commands.
\<close>

theorem display_tiles_row_major:
  "trace (display_tiles rows columns startBufferID st) =
     trace st @ display_events (unat rows) (unat columns) startBufferID
   \<and> length (filter is_plot (display_events (unat rows) (unat columns) startBufferID)) =
       unat rows * unat columns"
  by (simp add: display_tiles_eq filter_plot_display)

text \<open>
  C3, as the claim states it, fails: 5 rows of 8 cells are 40 cells, not 32.  With the
  constants of the program the loader converts 40 bitmaps, and bitmap 39 is one of them.
\<close>

theorem main_creates_forty_bitmaps:
  "main_draw 4 tile_disk \<noteq> None
   \<and> length (converted 0 (trace (the (main_draw 4 tile_disk)))) = 40
   \<and> 39 \<in> set (converted 0 (trace (the (main_draw 4 tile_disk))))"
proof -
  have "(of_nat 39 :: u16) \<in> of_nat ` {0..<40}"
    by (intro imageI) simp
  then show ?thesis
    by (simp add: main_draw_eq converted_draw_events)
qed

text \<open>
  C3, amended.  With the constants of the program (5 rows, 8 columns, cells of 16 by 16
  pixels, chunks of 2048 bytes, first ID 0), whatever the file system holds, the program
  reaches its wait loop having converted exactly the 40 bitmaps 0 to 39, in this order,
  and having plotted them, in this order, at \<open>(10 + 20 * c, 10 + 20 * r)\<close> for the rows
  \<open>r < 5\<close> and the columns \<open>c < 8\<close>: a grid 8 wide and 5 high with a pitch of 20 pixels
  from \<open>(10, 10)\<close>.
\<close>

theorem main_draws_grid:
  "\<exists>d. main_draw BLUE fs = Some d
     \<and> converted sel (trace d) = map of_nat [0..<40]
     \<and> plotted sel (trace d) =
         concat (map (\<lambda>r. map (\<lambda>c. (of_nat (r * 8 + c), 10 + 20 * int c, 10 + 20 * int r))
                              [0..<8]) [0..<5])"
  by (simp add: main_draw_eq converted_draw_events plotted_draw_events del: upt_Suc)

text \<open>
  C4, as the claim states it, fails: the loader reads what the file has.  On a file of
  100 bytes the read of the only row delivers 100 bytes, not \<open>chunkSize\<close>, and the
  block sent to the chunk buffer is these 100 bytes followed by 1948 bytes that the array
  held before.
\<close>

theorem loader_short_read:
  "load_tiles_from_file short_disk fname 0 16 16 1 8 state_init \<noteq> None
   \<and> Fread 1 2048 100
        \<in> set (trace (the (load_tiles_from_file short_disk fname 0 16 16 1 8 state_init)))
   \<and> Vdp_adv_write_block_data 5000 2048 (replicate 100 7 @ replicate 1948 0)
        \<in> set (trace (the (load_tiles_from_file short_disk fname 0 16 16 1 8 state_init)))
   \<and> (100 :: nat) \<noteq> unat chunkSize"
proof -
  have "loader_terminates 1 8"
    by (simp add: loader_terminates_def)
  then show ?thesis
    by (simp add: load_tiles_from_file_eq loader_events_def row_events_def chunk_state_def
          fread_step_def fread_bytes_def short_disk_def short_bytes_def one_file_def
          state_init_def readChunk_init_def chunkSize_def chunkStoreID_def Let_def)
qed

text \<open>
  C4, amended.  For a file that opens and has at least \<open>rowCount * chunkSize\<close> bytes,
  and for the counts for which the loader returns, its calls are, in this order: open the
  file with mode \<open>r\<close> (the stream is read byte by byte, untranslated); then for each
  row \<open>r < rowCount\<close>: clear the chunk buffer \<open>chunkStoreID\<close>, read exactly
  \<open>chunkSize\<close> bytes into the array \<^verbatim>\<open>readChunk\<close>, send these bytes, which are the
  bytes of the file from \<open>r * chunkSize\<close> on, to the chunk buffer, split that buffer by
  \<open>cw\<close> into \<open>blockCount\<close> buffers from the running ID
  \<open>startBitmapID + r * blockCount\<close>, then \<open>blockCount\<close> times select the running ID
  and convert it with \<open>cw\<close>, \<open>ch\<close> and the format RGBA2222, the ID going up by one
  each time; last, close the file.
\<close>

theorem loader_call_sequence:
  assumes "unat rowCount \<le> 255" and "unat rowCount = 0 \<or> unat blockCount \<le> 255"
    and "fs fileName = Some bytes"
    and "unat rowCount * unat chunkSize \<le> length bytes"
  shows "\<exists>st'. load_tiles_from_file fs fileName startBitmapID cw ch rowCount blockCount st
                 = Some st'
     \<and> trace st' = trace st @ [Fopen fileName ''r'']
         @ concat (map (\<lambda>r.
             [Vdp_adv_clear_buffer chunkStoreID,
              Fread 1 (unat chunkSize) (unat chunkSize),
              Vdp_adv_write_block_data chunkStoreID chunkSize
                (take (unat chunkSize) (drop (r * unat chunkSize) bytes)),
              Vdp_adv_split_by_width_multiple_from chunkStoreID cw blockCount
                (startBitmapID + of_nat (r * unat blockCount))]
             @ convert_events cw ch (startBitmapID + of_nat (r * unat blockCount))
                 (unat blockCount))
           [0..<unat rowCount])
         @ [Fclose]"
proof -
  from assms(1,2) have returns: "loader_terminates rowCount blockCount"
    by (simp add: loader_terminates_def)
  from assms(4) have enough: "unat rowCount * 2048 \<le> length bytes"
    by (simp add: chunkSize_def)
  have rows: "map (row_events (Some bytes) cw ch blockCount startBitmapID (readChunk st, 0))
                [0..<unat rowCount] =
              map (\<lambda>r.
                [Vdp_adv_clear_buffer chunkStoreID,
                 Fread 1 (unat chunkSize) (unat chunkSize),
                 Vdp_adv_write_block_data chunkStoreID chunkSize
                   (take (unat chunkSize) (drop (r * unat chunkSize) bytes)),
                 Vdp_adv_split_by_width_multiple_from chunkStoreID cw blockCount
                   (startBitmapID + of_nat (r * unat blockCount))]
                @ convert_events cw ch (startBitmapID + of_nat (r * unat blockCount))
                    (unat blockCount))
                [0..<unat rowCount]"
    by (rule map_cong [OF refl]) (simp add: row_events_full [OF _ enough])
  show ?thesis
    unfolding load_tiles_from_file_eq [OF returns] assms(3)
    by (simp add: loader_events_def rows)
qed

theorem loader_call_sequence_witness:
  "unat (5 :: u16) \<le> 255 \<and> unat (8 :: u16) \<le> 255
   \<and> tile_disk fname = Some (replicate 10240 0)
   \<and> unat (5 :: u16) * unat chunkSize \<le> length (replicate 10240 (0 :: byte))
   \<and> (\<exists>st'. load_tiles_from_file tile_disk fname 0 16 16 5 8 state_init = Some st'
        \<and> trace st' = [Fopen fname ''r'']
            @ concat (map (\<lambda>r.
                [Vdp_adv_clear_buffer chunkStoreID,
                 Fread 1 (unat chunkSize) (unat chunkSize),
                 Vdp_adv_write_block_data chunkStoreID chunkSize
                   (take (unat chunkSize) (drop (r * unat chunkSize) (replicate 10240 0))),
                 Vdp_adv_split_by_width_multiple_from chunkStoreID 16 8
                   (0 + of_nat (r * unat (8 :: u16)))]
                @ convert_events 16 16 (0 + of_nat (r * unat (8 :: u16))) (unat (8 :: u16)))
              [0..<unat (5 :: u16)])
            @ [Fclose])"
proof -
  have h1: "unat (5 :: u16) \<le> 255" and h2: "unat (5 :: u16) = 0 \<or> unat (8 :: u16) \<le> 255"
    and h2': "unat (8 :: u16) \<le> 255"
    by simp_all
  have h3: "tile_disk fname = Some (replicate 10240 0)"
    by (simp add: tile_disk_def one_file_def)
  have h4: "unat (5 :: u16) * unat chunkSize \<le> length (replicate 10240 (0 :: byte))"
    by (simp add: chunkSize_def)
  have t: "trace state_init = []"
    by (simp add: state_init_def)
  from loader_call_sequence
         [where rowCount = 5 and blockCount = 8 and fs = tile_disk and fileName = fname
            and bytes = "replicate 10240 0" and startBitmapID = 0 and cw = 16 and ch = 16
            and st = state_init, OF h1 h2 h3 h4]
  have "\<exists>st'. load_tiles_from_file tile_disk fname 0 16 16 5 8 state_init = Some st'
        \<and> trace st' = [Fopen fname ''r'']
            @ concat (map (\<lambda>r.
                [Vdp_adv_clear_buffer chunkStoreID,
                 Fread 1 (unat chunkSize) (unat chunkSize),
                 Vdp_adv_write_block_data chunkStoreID chunkSize
                   (take (unat chunkSize) (drop (r * unat chunkSize) (replicate 10240 0))),
                 Vdp_adv_split_by_width_multiple_from chunkStoreID 16 8
                   (0 + of_nat (r * unat (8 :: u16)))]
                @ convert_events 16 16 (0 + of_nat (r * unat (8 :: u16))) (unat (8 :: u16)))
              [0..<unat (5 :: u16)])
            @ [Fclose]"
    unfolding t append_Nil .
  with h1 h2' h3 h4 show ?thesis by blast
qed

text \<open>
  C5.  When the first key code 27 comes at poll \<open>k\<close>, the program returns status 0, and
  its calls after the drawing are the polls \<open>0\<close> to \<open>k\<close> (none before \<open>k\<close> returned
  27) followed by: text background colour 0, clear screen, cursor on.  When no poll ever
  returns 27 the program never returns.
\<close>

theorem main_exits_on_first_esc:
  "(keys k = 27 \<and> (\<forall>j<k. keys j \<noteq> 27) \<longrightarrow>
      map_option (\<lambda>r. (fst r, trace (snd r))) (main BLUE fs keys) =
        Some (0, draw_events BLUE fs
                 @ map (\<lambda>j. Vdp_getKeyCode (keys j)) [0..<Suc k]
                 @ [Vdp_set_text_bg_colour 0, Vdp_clear_screen, Vdp_cursor_enable True]))
   \<and> ((\<forall>n. keys n \<noteq> 27) \<longrightarrow> main BLUE fs keys = None)"
proof (intro conjI impI)
  assume "keys k = 27 \<and> (\<forall>j<k. keys j \<noteq> 27)"
  then have "map_option (\<lambda>r. (fst r, trace (snd r))) (main BLUE fs keys) =
           Some (0, draw_events BLUE fs @ poll_events keys 0 (Suc k) @ exit_events)"
    by (intro main_eq) simp_all
  then show "map_option (\<lambda>r. (fst r, trace (snd r))) (main BLUE fs keys) =
        Some (0, draw_events BLUE fs
                 @ map (\<lambda>j. Vdp_getKeyCode (keys j)) [0..<Suc k]
                 @ [Vdp_set_text_bg_colour 0, Vdp_clear_screen, Vdp_cursor_enable True])"
    by (simp add: poll_events_def exit_events_def)
next
  assume "\<forall>n. keys n \<noteq> 27"
  then show "main BLUE fs keys = None"
    by (intro main_None) simp
qed

theorem main_exits_on_first_esc_witness:
  "map_option (\<lambda>r. (fst r, trace (snd r))) (main 4 tile_disk (esc_after 2)) =
     Some (0, draw_events 4 tile_disk
              @ [Vdp_getKeyCode 0, Vdp_getKeyCode 0, Vdp_getKeyCode 27,
                 Vdp_set_text_bg_colour 0, Vdp_clear_screen, Vdp_cursor_enable True])
   \<and> main 4 tile_disk never_esc = None"
  using main_exits_on_first_esc [of "esc_after 2" 2 4 tile_disk]
        main_exits_on_first_esc [of never_esc 0 4 tile_disk]
  by (simp add: esc_after_def never_esc_def upt_rec)

text \<open>
  C6.  In every run the program reaches its wait loop, and there all 40 conversions of
  the loader are in the trace before the first plot command and none comes after it;
  the same holds of the whole trace of every run that exits.
\<close>

theorem loader_completes_before_first_plot:
  "(\<exists>d. main_draw BLUE fs = Some d
       \<and> length (filter is_convert (before_first_plot (trace d))) = 40
       \<and> filter is_convert (from_first_plot (trace d)) = [])
   \<and> (\<forall>r. main BLUE fs keys = Some r \<longrightarrow>
         length (filter is_convert (before_first_plot (trace (snd r)))) = 40
         \<and> filter is_convert (from_first_plot (trace (snd r))) = [])"
proof (intro conjI allI impI)
  show "\<exists>d. main_draw BLUE fs = Some d
       \<and> length (filter is_convert (before_first_plot (trace d))) = 40
       \<and> filter is_convert (from_first_plot (trace d)) = []"
    using conversions_before_first_plot [of "[]" BLUE fs]
    by (simp add: main_draw_eq)
next
  fix r
  assume r: "main BLUE fs keys = Some r"
  from main_returns_first_esc [OF r] obtain k
    where k: "keys k = 27" "\<And>j. j < k \<Longrightarrow> keys j \<noteq> 27" by blast
  have "map_option (\<lambda>r. (fst r, trace (snd r))) (main BLUE fs keys) =
          Some (0, draw_events BLUE fs @ poll_events keys 0 (Suc k) @ exit_events)"
    using k by (rule main_eq)
  with r have t: "trace (snd r) = draw_events BLUE fs @ (poll_events keys 0 (Suc k) @ exit_events)"
    by simp
  have none: "filter is_convert (poll_events keys 0 (Suc k) @ exit_events) = []"
    by (simp add: no_convert_poll_events exit_events_def del: upt_Suc)
  show "length (filter is_convert (before_first_plot (trace (snd r)))) = 40"
    unfolding t by (rule conversions_before_first_plot(1) [OF none])
  show "filter is_convert (from_first_plot (trace (snd r))) = []"
    unfolding t by (rule conversions_before_first_plot(2) [OF none])
qed

theorem loader_completes_before_first_plot_witness:
  "main 4 tile_disk (esc_after 0) \<noteq> None
   \<and> length (filter is_convert
        (before_first_plot (trace (snd (the (main 4 tile_disk (esc_after 0))))))) = 40
   \<and> filter is_convert
        (from_first_plot (trace (snd (the (main 4 tile_disk (esc_after 0)))))) = []"
proof -
  have "main 4 tile_disk (esc_after 0) \<noteq> None"
    using main_eq [of "esc_after 0" 0 4 tile_disk] by (auto simp: esc_after_def)
  then obtain r where r: "main 4 tile_disk (esc_after 0) = Some r"
    by blast
  with loader_completes_before_first_plot [of 4 tile_disk "esc_after 0"]
  show ?thesis by simp
qed

text \<open>
  C7, as the claim states it, fails for the missing file: the loader does not return
  normally there.  It calls \<^verbatim>\<open>fread\<close> on the NULL stream, and the run is undefined.
\<close>

theorem loader_undefined_without_file:
  "no_files fname = None
   \<and> loader_outcome no_files fname tileStartID cellWidth cellHeight cellRows cellColumns
        state_init = Undefined"
  by (simp add: loader_outcome_def no_files_def)

text \<open>
  C7, amended.  For every file that opens, whatever its length (so for every short
  read), and whichever commands the coprocessor rejects, the loader makes the same calls
  in the same order, the calls of \<open>loader_shape\<close>, up to the bytes that came out of the
  file; it returns normally when \<open>rowCount \<le> 255\<close> and, unless \<open>rowCount = 0\<close>,
  \<open>blockCount \<le> 255\<close>, and never returns otherwise.  There is no error result: the
  loader has none, and it takes no result from the file library or from the VDP.
\<close>

theorem loader_ignores_failures:
  assumes "fs fileName = Some bytes"
  shows "(unat rowCount \<le> 255 \<and> (unat rowCount = 0 \<or> unat blockCount \<le> 255) \<longrightarrow>
           (\<exists>st'. loader_outcome fs fileName startBitmapID cw ch rowCount blockCount st
                    = Returns st'
              \<and> map shape (drop (length (trace st)) (trace st')) =
                  loader_shape fileName startBitmapID cw ch (unat rowCount) blockCount
              \<and> (\<forall>rej v.
                    loader_on_vdp rej v fs fileName startBitmapID cw ch rowCount blockCount st
                    = Some (st', vdp_run_rejecting rej (drop (length (trace st)) (trace st')) v))))
     \<and> (\<not> (unat rowCount \<le> 255 \<and> (unat rowCount = 0 \<or> unat blockCount \<le> 255)) \<longrightarrow>
           loader_outcome fs fileName startBitmapID cw ch rowCount blockCount st
             = Never_returns)"
proof (intro conjI impI)
  assume "unat rowCount \<le> 255 \<and> (unat rowCount = 0 \<or> unat blockCount \<le> 255)"
  then have returns: "loader_terminates rowCount blockCount"
    by (simp add: loader_terminates_def)
  let ?calls = "[Fopen fileName ''r'']
                  @ loader_events (fs fileName) cw ch (unat rowCount) blockCount startBitmapID
                      (readChunk st, 0)
                  @ [Fclose]"
  let ?st' = "st\<lparr>trace := trace st @ ?calls,
              readChunk := fst (chunk_state (fs fileName) (readChunk st, 0) (unat rowCount)),
              fpos := snd (chunk_state (fs fileName) (readChunk st, 0) (unat rowCount))\<rparr>"
  have out: "loader_outcome fs fileName startBitmapID cw ch rowCount blockCount st = Returns ?st'"
    using returns by (simp add: loader_outcome_present [where fs = fs and fileName = fileName, OF assms])
  have new: "drop (length (trace st)) (trace ?st') = ?calls"
    by simp
  have shape: "map shape (drop (length (trace st)) (trace ?st')) =
                 loader_shape fileName startBitmapID cw ch (unat rowCount) blockCount"
    unfolding new by (rule shape_load_calls)
  have vdp: "\<forall>rej v.
               loader_on_vdp rej v fs fileName startBitmapID cw ch rowCount blockCount st
               = Some (?st', vdp_run_rejecting rej (drop (length (trace st)) (trace ?st')) v)"
    by (simp add: loader_on_vdp_def load_tiles_from_file_eq [OF returns])
  from out shape vdp
  show "\<exists>st'. loader_outcome fs fileName startBitmapID cw ch rowCount blockCount st
                    = Returns st'
              \<and> map shape (drop (length (trace st)) (trace st')) =
                  loader_shape fileName startBitmapID cw ch (unat rowCount) blockCount
              \<and> (\<forall>rej v.
                    loader_on_vdp rej v fs fileName startBitmapID cw ch rowCount blockCount st
                    = Some (st', vdp_run_rejecting rej (drop (length (trace st)) (trace st')) v))"
    by blast
next
  assume "\<not> (unat rowCount \<le> 255 \<and> (unat rowCount = 0 \<or> unat blockCount \<le> 255))"
  then have "\<not> loader_terminates rowCount blockCount"
    by (simp add: loader_terminates_def)
  then show "loader_outcome fs fileName startBitmapID cw ch rowCount blockCount st
               = Never_returns"
    by (simp add: loader_outcome_present [where fs = fs and fileName = fileName, OF assms])
qed

theorem loader_ignores_failures_witness:
  "short_disk fname = Some short_bytes
   \<and> (\<exists>st'. loader_outcome short_disk fname 0 16 16 5 8 state_init = Returns st'
         \<and> map shape (trace st') = loader_shape fname 0 16 16 5 8
         \<and> (\<forall>rej v. loader_on_vdp rej v short_disk fname 0 16 16 5 8 state_init
                       = Some (st', vdp_run_rejecting rej (trace st') v)))
   \<and> loader_outcome short_disk fname 0 16 16 256 8 state_init = Never_returns"
proof -
  have h: "short_disk fname = Some short_bytes"
    by (simp add: short_disk_def one_file_def)
  have t: "trace state_init = []"
    by (simp add: state_init_def)
  from loader_ignores_failures
         [where fs = short_disk and fileName = fname and rowCount = 5 and blockCount = 8
            and startBitmapID = 0 and cw = 16 and ch = 16 and st = state_init, OF h]
  have a: "\<exists>st'. loader_outcome short_disk fname 0 16 16 5 8 state_init = Returns st'
         \<and> map shape (trace st') = loader_shape fname 0 16 16 5 8
         \<and> (\<forall>rej v. loader_on_vdp rej v short_disk fname 0 16 16 5 8 state_init
                       = Some (st', vdp_run_rejecting rej (trace st') v))"
    unfolding t by simp
  from loader_ignores_failures
         [where fs = short_disk and fileName = fname and rowCount = 256 and blockCount = 8
            and startBitmapID = 0 and cw = 16 and ch = 16 and st = state_init, OF h]
  have b: "loader_outcome short_disk fname 0 16 16 256 8 state_init = Never_returns"
    by simp
  from h a b show ?thesis by blast
qed

text \<open>
  C8, as the claim states it, fails: with no rows the conversion loop is never entered,
  and the loader returns whatever \<open>blockCount\<close> is.
\<close>

theorem loader_zero_rows_returns:
  "loader_outcome tile_disk fname 0 16 16 0 256 state_init =
     Returns \<lparr>trace = [Fopen fname ''r'', Fclose], readChunk = readChunk_init, fpos = 0\<rparr>
   \<and> \<not> (unat (0 :: u16) \<le> 255 \<and> unat (256 :: u16) \<le> 255)"
proof -
  have "tile_disk fname = Some (replicate 10240 0)"
    by (simp add: tile_disk_def one_file_def)
  note out = loader_outcome_present [where fs = tile_disk and fileName = fname, OF this]
  have "loader_terminates 0 256"
    by (simp add: loader_terminates_def)
  then show ?thesis
    by (simp add: out state_init_def)
qed

text \<open>
  C8, amended.  With a file that opens, the loader returns if and only if
  \<open>rowCount \<le> 255\<close> and, unless \<open>rowCount = 0\<close>, \<open>blockCount \<le> 255\<close>; for all other
  counts an 8-bit counter wraps before it reaches the bound and the loader never returns.
\<close>

theorem loader_returns_iff:
  assumes "fs fileName = Some bytes"
  shows "((\<exists>st'. loader_outcome fs fileName startBitmapID cw ch rowCount blockCount st
                   = Returns st')
          \<longleftrightarrow> unat rowCount \<le> 255 \<and> (unat rowCount = 0 \<or> unat blockCount \<le> 255))
     \<and> (loader_outcome fs fileName startBitmapID cw ch rowCount blockCount st = Never_returns
          \<longleftrightarrow> \<not> (unat rowCount \<le> 255 \<and> (unat rowCount = 0 \<or> unat blockCount \<le> 255)))"
  unfolding loader_outcome_present [where fs = fs and fileName = fileName, OF assms]
  by (simp add: loader_terminates_def)

theorem loader_returns_iff_witness:
  "tile_disk fname = Some (replicate 10240 0)
   \<and> (\<exists>st'. loader_outcome tile_disk fname 0 16 16 5 8 state_init = Returns st')
   \<and> loader_outcome tile_disk fname 0 16 16 256 8 state_init = Never_returns
   \<and> loader_outcome tile_disk fname 0 16 16 5 256 state_init = Never_returns"
proof -
  have h: "tile_disk fname = Some (replicate 10240 0)"
    by (simp add: tile_disk_def one_file_def)
  from loader_returns_iff
         [where fs = tile_disk and fileName = fname and rowCount = 5 and blockCount = 8
            and startBitmapID = 0 and cw = 16 and ch = 16 and st = state_init, OF h]
  have a: "\<exists>st'. loader_outcome tile_disk fname 0 16 16 5 8 state_init = Returns st'"
    by simp
  from loader_returns_iff
         [where fs = tile_disk and fileName = fname and rowCount = 256 and blockCount = 8
            and startBitmapID = 0 and cw = 16 and ch = 16 and st = state_init, OF h]
  have b: "loader_outcome tile_disk fname 0 16 16 256 8 state_init = Never_returns"
    by simp
  from loader_returns_iff
         [where fs = tile_disk and fileName = fname and rowCount = 5 and blockCount = 256
            and startBitmapID = 0 and cw = 16 and ch = 16 and st = state_init, OF h]
  have c: "loader_outcome tile_disk fname 0 16 16 5 256 state_init = Never_returns"
    by simp
  from h a b c show ?thesis by blast
qed

text \<open>
  C9.  While \<^verbatim>\<open>readChunk\<close> has its 2048 bytes, an iteration of the chunk loop asks for
  at most 2048 bytes, gets no more, and leaves the array with 2048 bytes: nothing was
  stored past its end.  The same holds of every read of a whole run of the loader, for
  every file system.
\<close>

theorem reads_stay_inside_readChunk:
  assumes "length (readChunk st) = 2048"
  shows "length (readChunk (chunk_head f cw blockCount startBitmapID st)) = 2048
     \<and> list_all (reads_within 2048)
          (drop (length (trace st)) (trace (chunk_head f cw blockCount startBitmapID st)))
     \<and> (\<forall>st'. load_tiles_from_file fs fileName startBitmapID cw ch rowCount blockCount st
                 = Some st' \<longrightarrow>
           length (readChunk st') = 2048
           \<and> list_all (reads_within 2048) (drop (length (trace st)) (trace st')))"
proof (intro conjI allI impI)
  let ?bp = "(readChunk st, fpos st)"
  have len: "length (fst (fread_step f (unat chunkSize) ?bp)) = 2048"
    using assms by (simp add: fread_step_length chunkSize_def)
  then show "length (readChunk (chunk_head f cw blockCount startBitmapID st)) = 2048"
    by (simp add: chunk_head_eq)
  show "list_all (reads_within 2048)
          (drop (length (trace st)) (trace (chunk_head f cw blockCount startBitmapID st)))"
    using fread_step_got [of f "unat chunkSize" ?bp]
    by (simp add: chunk_head_eq chunkSize_def)
next
  fix st'
  assume r: "load_tiles_from_file fs fileName startBitmapID cw ch rowCount blockCount st
               = Some st'"
  then have "loader_terminates rowCount blockCount"
    using load_tiles_from_file_None [of rowCount blockCount fs fileName startBitmapID cw ch st]
    by auto
  from load_tiles_from_file_eq [OF this, of fs fileName startBitmapID cw ch st] r
  have st': "st' = st\<lparr>trace := trace st @ [Fopen fileName ''r'']
                  @ loader_events (fs fileName) cw ch (unat rowCount) blockCount startBitmapID
                      (readChunk st, 0)
                  @ [Fclose],
              readChunk := fst (chunk_state (fs fileName) (readChunk st, 0) (unat rowCount)),
              fpos := snd (chunk_state (fs fileName) (readChunk st, 0) (unat rowCount))\<rparr>"
    by simp
  show "length (readChunk st') = 2048"
    unfolding st' using assms by (simp add: chunk_state_length)
  show "list_all (reads_within 2048) (drop (length (trace st)) (trace st'))"
    unfolding st' by (simp add: reads_within_loader_events)
qed

theorem reads_stay_inside_readChunk_witness:
  "length (readChunk state_init) = 2048
   \<and> load_tiles_from_file tile_disk fname 0 16 16 5 8 state_init \<noteq> None
   \<and> length (readChunk (the (load_tiles_from_file tile_disk fname 0 16 16 5 8 state_init)))
       = 2048
   \<and> list_all (reads_within 2048)
        (trace (the (load_tiles_from_file tile_disk fname 0 16 16 5 8 state_init)))"
proof -
  have len: "length (readChunk state_init) = 2048"
    by (simp add: state_init_def readChunk_init_def)
  have "loader_terminates 5 8"
    by (simp add: loader_terminates_def)
  then obtain st' where st': "load_tiles_from_file tile_disk fname 0 16 16 5 8 state_init = Some st'"
    by (simp add: load_tiles_from_file_eq)
  from reads_stay_inside_readChunk [OF len, of None 16 8 0 tile_disk fname 16 5] st'
  have "length (readChunk st') = 2048
        \<and> list_all (reads_within 2048) (drop (length (trace state_init)) (trace st'))"
    by blast
  with len st' show ?thesis
    by (simp add: state_init_def)
qed

text \<open>
  C10, as the claim states it, fails in one point: the IDs the loader assigns are not
  0 to 31.  ID 39 is assigned.
\<close>

theorem loader_assigns_id_39:
  "load_tiles_from_file tile_disk fname tileStartID cellWidth cellHeight cellRows
     cellColumns state_init \<noteq> None
   \<and> 39 \<in> set (concat (map tile_ids (trace (the
        (load_tiles_from_file tile_disk fname tileStartID cellWidth cellHeight cellRows
           cellColumns state_init)))))
   \<and> 39 \<notin> {0 .. (31 :: u16)}"
proof -
  have "(of_nat 39 :: u16) \<in> of_nat ` {0..<40}"
    by (intro imageI) simp
  then have in40: "39 \<in> set (map (of_nat :: nat \<Rightarrow> u16) [0..<40])"
    by simp
  have "trace state_init = []"
    by (simp add: state_init_def)
  with load_constants_ids [of tile_disk state_init] obtain st' where
    "load_tiles_from_file tile_disk fname tileStartID cellWidth cellHeight cellRows
       cellColumns state_init = Some st'"
    and "set (concat (map tile_ids (trace st'))) = set (map of_nat [0..<40])"
    by auto
  with in40 show ?thesis
    by (simp del: set_concat set_map upt_Suc)
qed

text \<open>
  C10, amended.  With the constants of the program, for every file system, the IDs the
  loader assigns to tiles (targets of a split, selected bitmaps) are exactly 0 to 39, the
  only buffer it clears, writes or splits is \<open>chunkStoreID = 5000\<close>, and 5000 is not
  among 0 to 39.
\<close>

theorem chunk_buffer_never_a_tile:
  "\<exists>st'. load_tiles_from_file fs fname tileStartID cellWidth cellHeight cellRows cellColumns st
            = Some st'
     \<and> set (concat (map tile_ids (drop (length (trace st)) (trace st')))) =
           set (map of_nat [0..<40])
     \<and> set (concat (map chunk_ids (drop (length (trace st)) (trace st')))) = {chunkStoreID}
     \<and> chunkStoreID \<notin> set (map (of_nat :: nat \<Rightarrow> u16) [0..<40])"
  using load_constants_ids [of fs st] tile_id_not_chunk_store by blast

end
